theory Spec2Isabelle
  imports Main "HOL-Library.Sublist" "HOL-Library.AList" "HOL-Library.Log_Nat"
begin

section \<open>Python values, strings and errors\<close>

text \<open>
  The classifier (\<^verbatim>\<open>src/classification/url_classifier.py\<close>) works on raw ad records: JSON
  objects decoded into Python dictionaries. A value is \<open>None\<close>, a boolean, an integer, a
  string, a list or a dictionary (JSON floats are left out of the model). A dictionary is the
  list of its items in insertion order; a lookup reads the first item with the key.

  A Python \<open>str\<close> is modelled as a \<open>string\<close> holding one \<open>char\<close> per code point, so the
  model covers the code points below 256. \<open>str.lower\<close>, \<open>str.isspace\<close> and the regular
  expression class \<open>\s\<close> are written out for exactly these code points.

  Exceptions are values: a function that can raise returns \<open>py_error + 'a\<close>.
\<close>

datatype pyval =
    PNone
  | PBool bool
  | PInt int
  | PStr string
  | PList "pyval list"
  | PDict "(string \<times> pyval) list"

datatype py_error =
    AttributeError
  | TypeError
  | KeyError
  | ValueError
  | RecursionError
  | OverflowError
  | ZeroDivisionError

text \<open>Truth value testing, as in \<^verbatim>\<open>if link_url:\<close>.\<close>

fun truthy :: "pyval \<Rightarrow> bool" where
  "truthy PNone = False"
| "truthy (PBool b) = b"
| "truthy (PInt n) = (n \<noteq> 0)"
| "truthy (PStr s) = (s \<noteq> [])"
| "truthy (PList xs) = (xs \<noteq> [])"
| "truthy (PDict kvs) = (kvs \<noteq> [])"

text \<open>\<^verbatim>\<open>obj.get(key, default)\<close>: only a dictionary has the method.\<close>

definition py_get :: "pyval \<Rightarrow> string \<Rightarrow> pyval \<Rightarrow> py_error + pyval" where
  "py_get obj k d =
     (case obj of
        PDict kvs \<Rightarrow> Inr (case map_of kvs k of Some v \<Rightarrow> v | None \<Rightarrow> d)
      | _ \<Rightarrow> Inl AttributeError)"

text \<open>\<^verbatim>\<open>for x in obj\<close>: a list gives its elements, a string its characters, a dictionary
  its keys; anything else is not iterable.\<close>

definition py_iter :: "pyval \<Rightarrow> py_error + pyval list" where
  "py_iter obj =
     (case obj of
        PList xs \<Rightarrow> Inr xs
      | PStr s \<Rightarrow> Inr (map (\<lambda>c. PStr [c]) s)
      | PDict kvs \<Rightarrow> Inr (map (\<lambda>kv. PStr (fst kv)) kvs)
      | _ \<Rightarrow> Inl TypeError)"

subsection \<open>String methods\<close>

definition py_isspace :: "char \<Rightarrow> bool" where
  "py_isspace c =
     (let n = (of_char c :: nat)
      in (9 \<le> n \<and> n \<le> 13) \<or> (28 \<le> n \<and> n \<le> 32) \<or> n = 133 \<or> n = 160)"

definition lower_char :: "char \<Rightarrow> char" where
  "lower_char c =
     (let n = (of_char c :: nat)
      in if (65 \<le> n \<and> n \<le> 90) \<or> (192 \<le> n \<and> n \<le> 222 \<and> n \<noteq> 215)
         then char_of (n + 32) else c)"

definition py_lower :: "string \<Rightarrow> string" where
  "py_lower s = map lower_char s"

text \<open>\<^verbatim>\<open>sub in s\<close> on strings: \<open>sub\<close> occurs in \<open>s\<close> as a contiguous substring.\<close>

fun py_in :: "string \<Rightarrow> string \<Rightarrow> bool" where
  "py_in sub [] = (sub = [])"
| "py_in sub (c # cs) = (prefix sub (c # cs) \<or> py_in sub cs)"

definition py_strip :: "string \<Rightarrow> string" where
  "py_strip s = rev (dropWhile py_isspace (rev (dropWhile py_isspace s)))"

definition py_rstrip :: "string \<Rightarrow> string \<Rightarrow> string" where
  "py_rstrip chars s = rev (dropWhile (\<lambda>c. c \<in> set chars) (rev s))"

text \<open>\<^verbatim>\<open>s.replace(old, '')\<close> for a non-empty \<open>old\<close>: every occurrence, found from the
  left without overlap, is removed.\<close>

function py_remove_all :: "string \<Rightarrow> string \<Rightarrow> string" where
  "py_remove_all old [] = []"
| "py_remove_all old (c # cs) =
     (if old \<noteq> [] \<and> prefix old (c # cs)
      then py_remove_all old (drop (length old) (c # cs))
      else c # py_remove_all old cs)"
  by pat_completeness auto
termination
  by (relation "measure (\<lambda>(old, s). length s)") (auto simp: Suc_le_eq)

text \<open>\<^verbatim>\<open>s.split(sep)[0]\<close> for a one-character separator: the text before its first
  occurrence.\<close>

definition py_split_first :: "char \<Rightarrow> string \<Rightarrow> string" where
  "py_split_first sep s = takeWhile (\<lambda>c. c \<noteq> sep) s"

subsection \<open>\<^verbatim>\<open>str(obj)\<close>\<close>

text \<open>
  \<^verbatim>\<open>str(body)\<close> is applied to a body that is not a dictionary. The \<open>str\<close> of a string is
  the string itself. For every other value it is the interpreter's conversion, which is not
  part of the repository and can raise (\<open>ValueError\<close> on an integer beyond the limit on
  decimal digits, \<open>RecursionError\<close> on containers nested too deeply): it enters the model as
  the parameter \<open>builtin_str\<close>.
\<close>

definition py_str :: "(pyval \<Rightarrow> py_error + string) \<Rightarrow> pyval \<Rightarrow> py_error + string" where
  "py_str builtin_str v = (case v of PStr s \<Rightarrow> Inr s | _ \<Rightarrow> builtin_str v)"

subsection \<open>\<^verbatim>\<open>re.findall(r'https?://[^\s<>"]+', text)\<close>\<close>

text \<open>
  A match starts with \<open>http://\<close> or \<open>https://\<close> and runs on through the longest non-empty
  stretch of characters that are neither white space nor \<open><\<close>, \<open>>\<close>, \<open>"\<close>. The scan goes from
  left to right and resumes where a match ended, so matches do not overlap.
\<close>

definition url_char :: "char \<Rightarrow> bool" where
  "url_char c = (\<not> py_isspace c \<and> c \<noteq> CHR ''<'' \<and> c \<noteq> CHR ''>'' \<and> c \<noteq> CHR 0x22)"

definition match_url :: "string \<Rightarrow> (string \<times> string) option" where
  "match_url s =
     (case (if prefix ''https://'' s then Some (8::nat)
            else if prefix ''http://'' s then Some 7 else None) of
        None \<Rightarrow> None
      | Some n \<Rightarrow>
          (let body = drop n s; run = takeWhile url_char body
           in if run = [] then None else Some (take n s @ run, dropWhile url_char body)))"

lemma match_url_shorter: "match_url s = Some (m, rest) \<Longrightarrow> length rest < length s"
proof -
  assume a: "match_url s = Some (m, rest)"
  have le: "length (dropWhile url_char (drop n s)) \<le> length s - n" for n
    using length_dropWhile_le [of url_char "drop n s"] by simp
  from a obtain n where n: "n = 7 \<or> n = 8" "rest = dropWhile url_char (drop n s)"
    "takeWhile url_char (drop n s) \<noteq> []"
    by (auto simp: match_url_def Let_def split: if_splits)
  from n(3) have "drop n s \<noteq> []" by auto
  then have "n < length s" by simp
  with le [of n] n show ?thesis by auto
qed

function re_findall_urls :: "string \<Rightarrow> string list" where
  "re_findall_urls [] = []"
| "re_findall_urls (c # cs) =
     (case match_url (c # cs) of
        Some (m, rest) \<Rightarrow> m # re_findall_urls rest
      | None \<Rightarrow> re_findall_urls cs)"
  by pat_completeness auto
termination
  by (relation "measure length") (auto dest: match_url_shorter)

text \<open>\<^verbatim>\<open>re.findall\<close> raises \<open>TypeError\<close> on anything that is not a string.\<close>

definition re_findall :: "pyval \<Rightarrow> py_error + pyval list" where
  "re_findall v =
     (case v of PStr s \<Rightarrow> Inr (map PStr (re_findall_urls s)) | _ \<Rightarrow> Inl TypeError)"


section \<open>URL extraction\<close>

text \<open>
  \<^verbatim>\<open>URLClassifier._extract_urls_from_ad\<close>. The ad is the dictionary itself (its items);
  \<open>builtin_str\<close> is the interpreter's \<open>str\<close> on values that are not strings.
  The loop over the cards appends each card's truthy \<open>link_url\<close> to the list built so far.
\<close>

fun collect_card_urls :: "pyval list \<Rightarrow> pyval list \<Rightarrow> py_error + pyval list" where
  "collect_card_urls [] urls = Inr urls"
| "collect_card_urls (card1 # cards) urls =
     (case py_get card1 ''link_url'' PNone of
        Inl e \<Rightarrow> Inl e
      | Inr card_url \<Rightarrow>
          collect_card_urls cards (if truthy card_url then urls @ [card_url] else urls))"

text \<open>\<^verbatim>\<open>url.strip().rstrip('.,;:!?)')\<close>\<close>

definition clean_url :: "string \<Rightarrow> string" where
  "clean_url url = py_rstrip ''.,;:!?)'' (py_strip url)"

text \<open>The closing loop: \<open>unique_urls\<close> and \<open>seen\<close> are its two accumulators. An entry that
  is not a string has no \<open>strip\<close> method.\<close>

fun unique_urls_loop :: "pyval list \<Rightarrow> string list \<Rightarrow> string set \<Rightarrow> py_error + string list" where
  "unique_urls_loop [] unique_urls seen = Inr unique_urls"
| "unique_urls_loop (PStr u # urls) unique_urls seen =
     (let url = clean_url u
      in if url \<noteq> [] \<and> url \<notin> seen
         then unique_urls_loop urls (unique_urls @ [url]) (insert url seen)
         else unique_urls_loop urls unique_urls seen)"
| "unique_urls_loop (v # urls) unique_urls seen = Inl AttributeError"

definition extract_urls_from_ad ::
  "(pyval \<Rightarrow> py_error + string) \<Rightarrow> (string \<times> pyval) list \<Rightarrow> py_error + string list" where
  "extract_urls_from_ad builtin_str ad =
     (let snapshot = (case map_of ad ''snapshot'' of Some v \<Rightarrow> v | None \<Rightarrow> PDict [])
      in case py_get snapshot ''link_url'' PNone of Inl e \<Rightarrow> Inl e | Inr link_url \<Rightarrow>
         (let urls = (if truthy link_url then [link_url] else [])
          in case py_get snapshot ''cards'' (PList []) of Inl e \<Rightarrow> Inl e | Inr cards \<Rightarrow>
             case py_iter cards of Inl e \<Rightarrow> Inl e | Inr card_list \<Rightarrow>
             case collect_card_urls card_list urls of Inl e \<Rightarrow> Inl e | Inr urls2 \<Rightarrow>
             case py_get snapshot ''caption'' (PStr []) of Inl e \<Rightarrow> Inl e | Inr caption \<Rightarrow>
             case (if truthy caption then re_findall caption else Inr []) of
               Inl e \<Rightarrow> Inl e | Inr found_caption \<Rightarrow>
             case py_get snapshot ''body'' (PDict []) of Inl e \<Rightarrow> Inl e | Inr body \<Rightarrow>
             case (case body of
                     PDict kvs \<Rightarrow> py_get body ''text'' (PStr [])
                   | _ \<Rightarrow> (case py_str builtin_str body of
                            Inl e \<Rightarrow> Inl e | Inr s \<Rightarrow> Inr (PStr s))) of
               Inl e \<Rightarrow> Inl e | Inr body_text \<Rightarrow>
             case (if truthy body_text then re_findall body_text else Inr []) of
               Inl e \<Rightarrow> Inl e | Inr found_body \<Rightarrow>
             unique_urls_loop (urls2 @ found_caption @ found_body) [] {}))"

section \<open>Host extraction and the ignore list\<close>

text \<open>
  \<^verbatim>\<open>URLClassifier._extract_domain\<close> calls the standard library's \<^verbatim>\<open>urlparse\<close> and reads
  the \<open>netloc\<close> of the result. The library is not part of the repository: it enters the model
  as the parameter \<open>urlparse_netloc\<close>, which gives the \<open>netloc\<close> of a URL, or \<open>None\<close> when
  \<^verbatim>\<open>urlparse\<close> raises. Every exception raised inside the \<^verbatim>\<open>try\<close> block is caught and
  turned into the result \<open>None\<close>.
\<close>

definition extract_domain :: "(string \<Rightarrow> string option) \<Rightarrow> string \<Rightarrow> string option" where
  "extract_domain urlparse_netloc url0 =
     (let url = (if prefix ''http://'' url0 \<or> prefix ''https://'' url0
                 then url0 else ''http://'' @ url0)
      in case urlparse_netloc url of
           None \<Rightarrow> None
         | Some netloc \<Rightarrow>
             if netloc = [] then None
             else
               (let domain1 = py_remove_all ''www.'' (py_lower netloc);
                    domain = (if CHR '':'' \<in> set domain1
                              then py_split_first CHR '':'' domain1 else domain1)
                in if domain \<noteq> [] then Some domain else None))"

definition IGNORED_DOMAINS :: "string list" where
  "IGNORED_DOMAINS =
     [''facebook.com'', ''instagram.com'', ''fb.com'', ''fb.me'', ''bit.ly'', ''tinyurl.com'',
      ''l.facebook.com'', ''l.instagram.com'']"

definition is_ignored_domain :: "string \<Rightarrow> bool" where
  "is_ignored_domain domain = list_ex (\<lambda>ignored. py_in ignored (py_lower domain)) IGNORED_DOMAINS"

text \<open>
  An instance of the parameter, used to run the model on concrete URLs: the \<open>netloc\<close> that
  CPython's \<^verbatim>\<open>urllib.parse.urlsplit\<close> computes. Leading control characters and spaces are
  dropped, tabs and line breaks are removed, a leading scheme (a letter followed by letters,
  digits, \<open>+\<close>, \<open>-\<close>, \<open>.\<close> up to the first colon) is split off, and if \<open>//\<close> follows, the
  \<open>netloc\<close> is the text up to the first \<open>/\<close>, \<open>?\<close> or \<open>#\<close>. A \<open>netloc\<close> with only one of the
  brackets \<open>[\<close> and \<open>]\<close> raises \<open>ValueError\<close>. (Recent releases also validate the address
  between a pair of brackets; the instance accepts every such pair.)
\<close>

definition scheme_char :: "char \<Rightarrow> bool" where
  "scheme_char c =
     (let n = (of_char c :: nat)
      in (97 \<le> n \<and> n \<le> 122) \<or> (65 \<le> n \<and> n \<le> 90) \<or> (48 \<le> n \<and> n \<le> 57)
         \<or> c = CHR ''+'' \<or> c = CHR ''-'' \<or> c = CHR ''.'')"

definition ascii_alpha :: "char \<Rightarrow> bool" where
  "ascii_alpha c =
     (let n = (of_char c :: nat) in (97 \<le> n \<and> n \<le> 122) \<or> (65 \<le> n \<and> n \<le> 90))"

definition py_urlparse_netloc :: "string \<Rightarrow> string option" where
  "py_urlparse_netloc url0 =
     (let url1 = dropWhile (\<lambda>c. (of_char c :: nat) \<le> 32) url0;
          url2 = filter (\<lambda>c. c \<noteq> CHR 0x09 \<and> c \<noteq> CHR 0x0D \<and> c \<noteq> CHR 0x0A) url1;
          scheme = takeWhile (\<lambda>c. c \<noteq> CHR '':'') url2;
          url3 = (if CHR '':'' \<in> set url2 \<and> scheme \<noteq> [] \<and> ascii_alpha (hd scheme)
                     \<and> list_all scheme_char scheme
                  then drop (length scheme + 1) url2 else url2)
      in if prefix ''//'' url3
         then (let netloc = takeWhile (\<lambda>c. c \<noteq> CHR ''/'' \<and> c \<noteq> CHR ''?'' \<and> c \<noteq> CHR ''#'')
                              (drop 2 url3)
               in if (CHR ''['' \<in> set netloc) \<noteq> (CHR '']'' \<in> set netloc)
                  then None else Some netloc)
         else Some [])"

text \<open>
  An instance of the parameter \<open>builtin_str\<close>, used to run the model on concrete ads:
  CPython's \<open>str\<close> of a value that is not a string. \<open>None\<close>, booleans and integers print as
  such; a list or a dictionary prints the \<open>repr\<close> of its parts, strings in quotes with
  escapes. An integer of more than 4300 decimal digits, alone or inside a container, raises
  \<open>ValueError\<close>. (The interpreter's recursion limit on deeply nested containers depends on the
  running program and is not part of the instance.)
\<close>

fun digits :: "nat \<Rightarrow> string" where
  "digits n = (if n < 10 then [char_of (48 + n)] else digits (n div 10) @ [char_of (48 + n mod 10)])"

declare digits.simps [simp del]

definition str_of_int :: "int \<Rightarrow> string" where
  "str_of_int i = (if i < 0 then CHR ''-'' # digits (nat (- i)) else digits (nat i))"

definition hex_digit :: "nat \<Rightarrow> char" where
  "hex_digit n = (if n < 10 then char_of (48 + n) else char_of (87 + n))"

definition repr_char :: "char \<Rightarrow> char \<Rightarrow> string" where
  "repr_char quote c =
     (let n = (of_char c :: nat)
      in if c = quote \<or> n = 92 then [CHR 0x5C, c]
         else if n = 9 then [CHR 0x5C, CHR ''t'']
         else if n = 10 then [CHR 0x5C, CHR ''n'']
         else if n = 13 then [CHR 0x5C, CHR ''r'']
         else if n < 32 \<or> (127 \<le> n \<and> n \<le> 160) \<or> n = 173
              then [CHR 0x5C, CHR ''x'', hex_digit (n div 16), hex_digit (n mod 16)]
         else [c])"

definition repr_str :: "string \<Rightarrow> string" where
  "repr_str s =
     (let quote = (if CHR 0x27 \<in> set s \<and> CHR 0x22 \<notin> set s then CHR 0x22 else CHR 0x27)
      in quote # concat (map (repr_char quote) s) @ [quote])"

fun join :: "string \<Rightarrow> string list \<Rightarrow> string" where
  "join sep [] = []"
| "join sep [x] = x"
| "join sep (x # y # ys) = x @ sep @ join sep (y # ys)"

fun py_repr :: "pyval \<Rightarrow> string" where
  "py_repr PNone = ''None''"
| "py_repr (PBool b) = (if b then ''True'' else ''False'')"
| "py_repr (PInt i) = str_of_int i"
| "py_repr (PStr s) = repr_str s"
| "py_repr (PList xs) = ''['' @ join '', '' (map py_repr xs) @ '']''"
| "py_repr (PDict kvs) =
     ''{'' @ join '', '' (map (\<lambda>kv. repr_str (fst kv) @ '': '' @ py_repr (snd kv)) kvs) @ ''}''"

definition int_convertible :: "int \<Rightarrow> bool" where
  "int_convertible i = (length (digits (nat \<bar>i\<bar>)) \<le> 4300)"

fun ints_convertible :: "pyval \<Rightarrow> bool" where
  "ints_convertible (PInt i) = int_convertible i"
| "ints_convertible (PList xs) = list_all ints_convertible xs"
| "ints_convertible (PDict kvs) = list_all (\<lambda>kv. ints_convertible (snd kv)) kvs"
| "ints_convertible v = True"

definition py_builtin_str :: "pyval \<Rightarrow> py_error + string" where
  "py_builtin_str v =
     (if ints_convertible v then Inr (case v of PStr s \<Rightarrow> s | _ \<Rightarrow> py_repr v)
      else Inl ValueError)"

section \<open>Classification\<close>

datatype classification = CONVERTY | CONCURRENT | UNKNOWN

datatype confidence = High | Medium | Low

record classification_result =
  classification :: classification
  confidence :: confidence
  reason :: string
  destination_url :: "string option"
  competitor_domain :: "string option"

text \<open>
  The \<^verbatim>\<open>for url in urls\<close> loop of \<^verbatim>\<open>URLClassifier.classify_ad\<close>. \<open>Some\<close> is a
  \<^verbatim>\<open>return\<close> from inside the loop, \<open>None\<close> is the loop running to its end.
\<close>

fun classify_urls ::
  "(string \<Rightarrow> string option) \<Rightarrow> string \<Rightarrow> string list \<Rightarrow> classification_result option" where
  "classify_urls urlparse_netloc converty_domain [] = None"
| "classify_urls urlparse_netloc converty_domain (url # urls) =
     (if py_in (py_lower converty_domain) (py_lower url)
      then Some \<lparr>classification = CONVERTY, confidence = High,
                 reason = ''URL contient le domaine Converty: '' @ converty_domain,
                 destination_url = Some url, competitor_domain = None\<rparr>
      else case extract_domain urlparse_netloc url of
             None \<Rightarrow> classify_urls urlparse_netloc converty_domain urls
           | Some domain \<Rightarrow>
               if domain = [] then classify_urls urlparse_netloc converty_domain urls
               else if is_ignored_domain domain
                    then classify_urls urlparse_netloc converty_domain urls
               else Some \<lparr>classification = CONCURRENT, confidence = High,
                          reason = ''URL pointe vers un domaine concurrent: '' @ domain,
                          destination_url = Some url, competitor_domain = Some domain\<rparr>)"

definition classify_ad ::
  "(pyval \<Rightarrow> py_error + string) \<Rightarrow> (string \<Rightarrow> string option) \<Rightarrow> (string \<times> pyval) list
     \<Rightarrow> string \<Rightarrow> py_error + classification_result" where
  "classify_ad builtin_str urlparse_netloc ad converty_domain =
     (case extract_urls_from_ad builtin_str ad of
        Inl e \<Rightarrow> Inl e
      | Inr urls \<Rightarrow>
          if urls = []
          then Inr \<lparr>classification = UNKNOWN, confidence = Low,
                    reason = ''Aucune URL trouv'' @ [CHR 0xE9] @ ''e dans la publicit'' @ [CHR 0xE9],
                    destination_url = None, competitor_domain = None\<rparr>
          else (case classify_urls urlparse_netloc converty_domain urls of
                  Some result \<Rightarrow> Inr result
                | None \<Rightarrow>
                    Inr \<lparr>classification = UNKNOWN, confidence = Medium,
                         reason = ''Aucune URL commerciale identifi'' @ [CHR 0xE9] @ ''e'',
                         destination_url = (case urls of u # _ \<Rightarrow> Some u | [] \<Rightarrow> None),
                         competitor_domain = None\<rparr>))"


section \<open>The URL extractor as the specification words it\<close>

text \<open>
  The specification describes the extractor by its sources, in a fixed order, followed by
  trimming and the removal of duplicates. \<open>spec_extract_urls\<close> is that description, written
  without the code's helpers; the code is compared with it below. \<open>field\<close> reads a key of a
  structured value (\<open>None\<close> when the key or the structure is absent), \<open>text_of\<close> is the text
  of a value that holds text (empty otherwise), \<open>elements\<close> are the members of a sequence.
  \<open>drop_trailing P\<close> removes the longest stretch of characters with \<open>P\<close> from the end;
  \<open>spec_trim\<close> removes leading white space, then trailing white space, then trailing
  punctuation. \<open>keep_first\<close> removes duplicates and keeps the first occurrence (\<open>remdups\<close>
  keeps the last one). A body that is plain text is its own text; a body that is neither a
  structure nor text is read through the interpreter's \<open>str\<close>.
\<close>

definition field :: "pyval \<Rightarrow> string \<Rightarrow> pyval" where
  "field obj k =
     (case obj of
        PDict kvs \<Rightarrow> (case map_of kvs k of Some v \<Rightarrow> v | None \<Rightarrow> PNone)
      | _ \<Rightarrow> PNone)"

definition text_of :: "pyval \<Rightarrow> string" where
  "text_of v = (case v of PStr s \<Rightarrow> s | _ \<Rightarrow> [])"

definition elements :: "pyval \<Rightarrow> pyval list" where
  "elements v = (case v of PList xs \<Rightarrow> xs | _ \<Rightarrow> [])"

definition keep_first :: "'a list \<Rightarrow> 'a list" where
  "keep_first xs = rev (remdups (rev xs))"

definition trailing_punctuation :: "char \<Rightarrow> bool" where
  "trailing_punctuation c =
     (c = CHR ''.'' \<or> c = CHR '','' \<or> c = CHR '';'' \<or> c = CHR '':'' \<or> c = CHR ''!''
      \<or> c = CHR ''?'' \<or> c = CHR '')'')"

definition drop_trailing :: "(char \<Rightarrow> bool) \<Rightarrow> string \<Rightarrow> string" where
  "drop_trailing P s = take (length s - length (takeWhile P (rev s))) s"

definition spec_trim :: "string \<Rightarrow> string" where
  "spec_trim u =
     drop_trailing trailing_punctuation (drop_trailing py_isspace (dropWhile py_isspace u))"

definition spec_body_text :: "(pyval \<Rightarrow> py_error + string) \<Rightarrow> pyval \<Rightarrow> string" where
  "spec_body_text builtin_str snapshot =
     (case snapshot of
        PDict kvs \<Rightarrow>
          (case map_of kvs ''body'' of
             None \<Rightarrow> []
           | Some (PDict b) \<Rightarrow> text_of (field (PDict b) ''text'')
           | Some (PStr s) \<Rightarrow> s
           | Some body \<Rightarrow> (case builtin_str body of Inr s \<Rightarrow> s | Inl e \<Rightarrow> []))
      | _ \<Rightarrow> [])"

definition spec_candidates ::
  "(pyval \<Rightarrow> py_error + string) \<Rightarrow> (string \<times> pyval) list \<Rightarrow> string list" where
  "spec_candidates builtin_str ad =
     (let snapshot = field (PDict ad) ''snapshot''
      in [text_of (field snapshot ''link_url'')]
         @ map (\<lambda>c. text_of (field c ''link_url'')) (elements (field snapshot ''cards''))
         @ re_findall_urls (text_of (field snapshot ''caption''))
         @ re_findall_urls (spec_body_text builtin_str snapshot))"

definition spec_extract_urls ::
  "(pyval \<Rightarrow> py_error + string) \<Rightarrow> (string \<times> pyval) list \<Rightarrow> string list" where
  "spec_extract_urls builtin_str ad =
     keep_first (filter (\<lambda>u. u \<noteq> []) (map spec_trim (spec_candidates builtin_str ad)))"

section \<open>Ads with fields of the expected types\<close>

text \<open>
  The data model gives \<open>snapshot\<close> as a structure with \<open>link_url\<close> (a string), \<open>cards\<close>
  (a sequence of structures with a \<open>link_url\<close>), \<open>caption\<close> (text) and \<open>body\<close> (text or a
  structure with \<open>text\<close>). \<open>well_typed_ad\<close> says that every field that is present has
  its type; where the code only tests a value for truth, \<open>None\<close> and the other false values
  pass as well. A body that is neither a structure nor text passes when the interpreter's
  \<open>str\<close> converts it without raising.
\<close>

definition str_or_falsy :: "pyval \<Rightarrow> bool" where
  "str_or_falsy v = (case v of PStr s \<Rightarrow> True | _ \<Rightarrow> \<not> truthy v)"

definition well_typed_card :: "pyval \<Rightarrow> bool" where
  "well_typed_card c =
     (case c of PDict kvs \<Rightarrow> str_or_falsy (field c ''link_url'') | _ \<Rightarrow> False)"

definition well_typed_body :: "(pyval \<Rightarrow> py_error + string) \<Rightarrow> pyval \<Rightarrow> bool" where
  "well_typed_body builtin_str body =
     (case body of
        PDict b \<Rightarrow> str_or_falsy (field (PDict b) ''text'')
      | PStr s \<Rightarrow> True
      | _ \<Rightarrow> (case builtin_str body of Inr s \<Rightarrow> True | Inl e \<Rightarrow> False))"

definition well_typed_snapshot :: "(pyval \<Rightarrow> py_error + string) \<Rightarrow> pyval \<Rightarrow> bool" where
  "well_typed_snapshot builtin_str snapshot =
     (case snapshot of
        PDict kvs \<Rightarrow>
          str_or_falsy (field snapshot ''link_url'')
          \<and> (case map_of kvs ''cards'' of
                None \<Rightarrow> True
              | Some (PList cs) \<Rightarrow> list_all well_typed_card cs
              | Some _ \<Rightarrow> False)
          \<and> str_or_falsy (field snapshot ''caption'')
          \<and> (case map_of kvs ''body'' of
                None \<Rightarrow> True
              | Some body \<Rightarrow> well_typed_body builtin_str body)
      | _ \<Rightarrow> False)"

definition well_typed_ad :: "(pyval \<Rightarrow> py_error + string) \<Rightarrow> (string \<times> pyval) list \<Rightarrow> bool" where
  "well_typed_ad builtin_str ad =
     (case map_of ad ''snapshot'' of
        None \<Rightarrow> True
      | Some s \<Rightarrow> well_typed_snapshot builtin_str s)"

section \<open>The site mapper's confidence\<close>

text \<open>
  \<^verbatim>\<open>SiteMapper._calculate_confidence\<close> (\<^verbatim>\<open>src/discovery/site_mapper.py\<close>) divides two
  integers with \<open>/\<close> and compares the quotient with the literals \<open>0.7\<close> and \<open>0.3\<close>.
  The quotient is a binary64 number: the division of two Python integers gives the double
  nearest to the exact quotient, ties going to the even significand, and raises
  \<open>OverflowError\<close> when that double would be \<open>2 ^ 1024\<close> or more. A literal denotes the double
  nearest to its decimal value. A double is modelled by the rational number it stands for.

  \<open>round_half_even y\<close> is the integer nearest to \<open>y\<close>, ties to even. \<open>floor_log2 x\<close> is the
  exponent \<open>e\<close> with \<open>2 ^ e \<le> x < 2 ^ (e + 1)\<close>. \<open>nearest_double x\<close> rounds \<open>x \<ge> 0\<close> to 53
  significant bits, or to a multiple of \<open>2 ^ -1074\<close> in the subnormal range.
\<close>

definition round_half_even :: "rat \<Rightarrow> int" where
  "round_half_even y =
     (let f = \<lfloor>y\<rfloor>; d = y - of_int f
      in if d < 1 / 2 then f else if 1 / 2 < d then f + 1 else if even f then f else f + 1)"

definition floor_log2 :: "rat \<Rightarrow> int" where
  "floor_log2 x = (if 1 \<le> x then bitlen \<lfloor>x\<rfloor> - 1 else - bitlen (\<lceil>1 / x\<rceil> - 1))"

definition nearest_double :: "rat \<Rightarrow> py_error + rat" where
  "nearest_double x =
     (if x = 0 then Inr 0
      else (let e = max (floor_log2 x) (- 1022);
                q = e - 52;
                m = round_half_even (x * 2 powi (- q));
                v = of_int m * 2 powi q
            in if 2 ^ 1024 \<le> v then Inl OverflowError else Inr v))"

definition py_true_div :: "int \<Rightarrow> int \<Rightarrow> py_error + rat" where
  "py_true_div a b =
     (if b = 0 then Inl ZeroDivisionError
      else case nearest_double (of_int \<bar>a\<bar> / of_int \<bar>b\<bar>) of
             Inl e \<Rightarrow> Inl e
           | Inr v \<Rightarrow> Inr (if (a < 0) = (b < 0) then v else - v))"

definition float_literal :: "rat \<Rightarrow> rat" where
  "float_literal x = (case nearest_double x of Inr v \<Rightarrow> v | Inl e \<Rightarrow> 0)"

definition calculate_confidence :: "int \<Rightarrow> int \<Rightarrow> py_error + confidence" where
  "calculate_confidence page_ads total_ads =
     (if total_ads = 0 then Inr Low
      else case py_true_div page_ads total_ads of
             Inl e \<Rightarrow> Inl e
           | Inr ratio \<Rightarrow>
               Inr (if float_literal (7 / 10) \<le> ratio then High
                    else if float_literal (3 / 10) \<le> ratio then Medium
                    else Low))"


fun conf_rank :: "confidence \<Rightarrow> nat" where
  "conf_rank Low = 0"
| "conf_rank Medium = 1"
| "conf_rank High = 2"

section \<open>The ad analyzer\<close>

text \<open>
  \<^verbatim>\<open>src/classification/ad_analyzer.py\<close>. A classified ad is the classification result
  together with three fields copied from the ad. A page analysis holds the counts, the
  competitors (domain and number of ads) and the classified ads; its two ratio fields are
  floating-point numbers computed from the counts and are not part of the model. A Python
  dictionary keeps its keys in insertion order: \<open>AList.update\<close> overwrites the value of a key
  in place and appends a new key at the end.
\<close>

record classified_ad = classification_result +
  ad_id :: pyval
  ad_creation_time :: pyval
  ad_delivery_start_time :: pyval

record page_analysis =
  page_id :: pyval
  page_name :: pyval
  converty_domain :: string
  total_ads :: int
  converty_ads :: int
  concurrent_ads :: int
  unknown_ads :: int
  competitors :: "(string \<times> int) list"
  classified_ads :: "classified_ad list"

text \<open>\<^verbatim>\<open>sorted(d.items(), key=lambda x: x[1], reverse=True)\<close>: a stable sort by falling
  count (entries with equal counts keep their order).\<close>

definition sorted_by_count_desc :: "(string \<times> int) list \<Rightarrow> (string \<times> int) list" where
  "sorted_by_count_desc items = sort_key (\<lambda>x. - snd x) items"

text \<open>
  The loop of \<^verbatim>\<open>_analyze_page\<close> over the fetched ads. Its accumulators are the list of
  classified ads, the three counters and the competitors dictionary.
\<close>

fun analyze_ads ::
  "(pyval \<Rightarrow> py_error + string) \<Rightarrow> (string \<Rightarrow> string option) \<Rightarrow> string \<Rightarrow> (string \<times> pyval) list list
     \<Rightarrow> classified_ad list \<Rightarrow> int \<Rightarrow> int \<Rightarrow> int \<Rightarrow> (string \<times> int) list
     \<Rightarrow> py_error + (classified_ad list \<times> int \<times> int \<times> int \<times> (string \<times> int) list)" where
  "analyze_ads builtin_str urlparse_netloc converty_dom [] cads converty_count concurrent_count
       unknown_count comps =
     Inr (cads, converty_count, concurrent_count, unknown_count, comps)"
| "analyze_ads builtin_str urlparse_netloc converty_dom (ad # ads) cads converty_count concurrent_count
       unknown_count comps =
     (case classify_ad builtin_str urlparse_netloc ad converty_dom of
        Inl e \<Rightarrow> Inl e
      | Inr c \<Rightarrow>
          (let cad = \<lparr>classification = classification c, confidence = confidence c,
                        reason = reason c, destination_url = destination_url c,
                        competitor_domain = competitor_domain c,
                        ad_id = field (PDict ad) ''ad_archive_id'',
                        ad_creation_time = field (PDict ad) ''ad_creation_time'',
                        ad_delivery_start_time = field (PDict ad) ''ad_delivery_start_time''\<rparr>;
               cads2 = cads @ [cad]
           in if classification c = CONVERTY
              then analyze_ads builtin_str urlparse_netloc converty_dom ads cads2 (converty_count + 1)
                     concurrent_count unknown_count comps
              else if classification c = CONCURRENT
              then analyze_ads builtin_str urlparse_netloc converty_dom ads cads2 converty_count
                     (concurrent_count + 1) unknown_count
                     (case competitor_domain c of
                        None \<Rightarrow> comps
                      | Some d \<Rightarrow>
                          if d = [] then comps
                          else AList.update d
                                 ((case map_of comps d of Some n \<Rightarrow> n | None \<Rightarrow> 0) + 1) comps)
              else analyze_ads builtin_str urlparse_netloc converty_dom ads cads2 converty_count
                     concurrent_count (unknown_count + 1) comps))"

text \<open>
  \<^verbatim>\<open>_analyze_page\<close>. The ads client is a collaborator outside the repository: it is the
  parameter \<open>get_all_ads_by_page_id\<close>, and its failure is passed on. \<^verbatim>\<open>page['page_id']\<close>
  raises \<open>KeyError\<close> on a missing key.
\<close>

definition py_index :: "(string \<times> pyval) list \<Rightarrow> string \<Rightarrow> py_error + pyval" where
  "py_index d k = (case map_of d k of Some v \<Rightarrow> Inr v | None \<Rightarrow> Inl KeyError)"

definition analyze_page ::
  "(pyval \<Rightarrow> py_error + string) \<Rightarrow> (string \<Rightarrow> string option) \<Rightarrow> (pyval \<Rightarrow> py_error + (string \<times> pyval) list list)
     \<Rightarrow> (string \<times> pyval) list \<Rightarrow> string \<Rightarrow> py_error + page_analysis" where
  "analyze_page builtin_str urlparse_netloc get_all_ads_by_page_id page converty_dom =
     (case py_index page ''page_id'' of Inl e \<Rightarrow> Inl e | Inr pid \<Rightarrow>
      case py_index page ''page_name'' of Inl e \<Rightarrow> Inl e | Inr pname \<Rightarrow>
      case get_all_ads_by_page_id pid of Inl e \<Rightarrow> Inl e | Inr all_page_ads \<Rightarrow>
      case analyze_ads builtin_str urlparse_netloc converty_dom all_page_ads [] 0 0 0 [] of
        Inl e \<Rightarrow> Inl e
      | Inr (cads, converty_count, concurrent_count, unknown_count, comps) \<Rightarrow>
          Inr \<lparr>page_id = pid, page_name = pname, converty_domain = converty_dom,
               total_ads = int (length cads), converty_ads = converty_count,
               concurrent_ads = concurrent_count, unknown_ads = unknown_count,
               competitors = sorted_by_count_desc comps, classified_ads = cads\<rparr>)"

text \<open>\<^verbatim>\<open>_aggregate_competitors\<close>: the inner loop adds one page's competitors to the
  dictionary \<open>all_competitors\<close>, the outer loop runs over the pages.\<close>

fun add_competitors :: "(string \<times> int) list \<Rightarrow> (string \<times> int) list \<Rightarrow> (string \<times> int) list" where
  "add_competitors [] all_competitors = all_competitors"
| "add_competitors (competitor # rest) all_competitors =
     add_competitors rest
       (case map_of all_competitors (fst competitor) of
          Some n \<Rightarrow> AList.update (fst competitor) (n + snd competitor) all_competitors
        | None \<Rightarrow> AList.update (fst competitor) (snd competitor) all_competitors)"

definition aggregate_competitors :: "page_analysis list \<Rightarrow> (string \<times> int) list" where
  "aggregate_competitors page_analyses =
     sorted_by_count_desc
       (fold (\<lambda>page_analysis all. add_competitors (competitors page_analysis) all)
          page_analyses [])"

text \<open>
  \<^verbatim>\<open>analyze_client\<close>. The mapping data of phase 1 is read as a client id and the list of
  site mappings, each a site with its Facebook pages. The report's time stamp and the ratios
  of the global statistics (floating point) are left out; \<open>global_stats\<close> holds the four sums.
\<close>

record site_mapping =
  site :: string
  fb_pages :: "(string \<times> pyval) list list"

record client_report =
  client_id :: pyval
  pages_analyzed :: int
  global_stats :: "int \<times> int \<times> int \<times> int"
  top_competitors :: "(string \<times> int) list"
  page_details :: "page_analysis list"

fun analyze_pages ::
  "(pyval \<Rightarrow> py_error + string) \<Rightarrow> (string \<Rightarrow> string option) \<Rightarrow> (pyval \<Rightarrow> py_error + (string \<times> pyval) list list)
     \<Rightarrow> string \<Rightarrow> (string \<times> pyval) list list \<Rightarrow> page_analysis list
     \<Rightarrow> py_error + page_analysis list" where
  "analyze_pages builtin_str urlparse_netloc fetch converty_dom [] page_analyses = Inr page_analyses"
| "analyze_pages builtin_str urlparse_netloc fetch converty_dom (page # pages) page_analyses =
     (case analyze_page builtin_str urlparse_netloc fetch page converty_dom of
        Inl e \<Rightarrow> Inl e
      | Inr page_analysis \<Rightarrow>
          analyze_pages builtin_str urlparse_netloc fetch converty_dom pages (page_analyses @ [page_analysis]))"

fun analyze_sites ::
  "(pyval \<Rightarrow> py_error + string) \<Rightarrow> (string \<Rightarrow> string option) \<Rightarrow> (pyval \<Rightarrow> py_error + (string \<times> pyval) list list)
     \<Rightarrow> site_mapping list \<Rightarrow> page_analysis list \<Rightarrow> py_error + page_analysis list" where
  "analyze_sites builtin_str urlparse_netloc fetch [] page_analyses = Inr page_analyses"
| "analyze_sites builtin_str urlparse_netloc fetch (m # mappings) page_analyses =
     (case analyze_pages builtin_str urlparse_netloc fetch (site m) (fb_pages m) page_analyses of
        Inl e \<Rightarrow> Inl e
      | Inr page_analyses2 \<Rightarrow> analyze_sites builtin_str urlparse_netloc fetch mappings page_analyses2)"

definition calculate_global_stats :: "page_analysis list \<Rightarrow> int \<times> int \<times> int \<times> int" where
  "calculate_global_stats page_analyses =
     (sum_list (map total_ads page_analyses), sum_list (map converty_ads page_analyses),
      sum_list (map concurrent_ads page_analyses), sum_list (map unknown_ads page_analyses))"

definition analyze_client ::
  "(pyval \<Rightarrow> py_error + string) \<Rightarrow> (string \<Rightarrow> string option) \<Rightarrow> (pyval \<Rightarrow> py_error + (string \<times> pyval) list list)
     \<Rightarrow> pyval \<Rightarrow> site_mapping list \<Rightarrow> py_error + client_report" where
  "analyze_client builtin_str urlparse_netloc fetch cid mappings =
     (case analyze_sites builtin_str urlparse_netloc fetch mappings [] of
        Inl e \<Rightarrow> Inl e
      | Inr page_analyses \<Rightarrow>
          Inr \<lparr>client_id = cid, pages_analyzed = int (length page_analyses),
               global_stats = calculate_global_stats page_analyses,
               top_competitors = take 20 (aggregate_competitors page_analyses),
               page_details = page_analyses\<rparr>)"

text \<open>
  The top-competitors list as the specification words it: the entries of all pages'
  competitor lists, one after the other; per domain the sum of its counts; the domains in the
  order of their first appearance (the insertion order of the dictionary).
\<close>

definition all_entries :: "page_analysis list \<Rightarrow> (string \<times> int) list" where
  "all_entries page_analyses = concat (map competitors page_analyses)"

definition aggregate_count :: "(string \<times> int) list \<Rightarrow> string \<Rightarrow> int" where
  "aggregate_count entries d = sum_list (map snd (filter (\<lambda>e. fst e = d) entries))"

definition aggregated_items :: "(string \<times> int) list \<Rightarrow> (string \<times> int) list" where
  "aggregated_items entries =
     map (\<lambda>d. (d, aggregate_count entries d)) (keep_first (map fst entries))"

text \<open>
  Counting in the list of classified ads, and reading the competitors dictionary with the
  default \<open>0\<close> (\<^verbatim>\<open>competitors.get(d, 0)\<close>). \<open>tally_ok\<close> is the invariant of the loop of
  \<^verbatim>\<open>_analyze_page\<close>.
\<close>

definition count_class :: "classification \<Rightarrow> classified_ad list \<Rightarrow> int" where
  "count_class k cads = int (length (filter (\<lambda>a. classification a = k) cads))"

definition count_domain :: "string \<Rightarrow> classified_ad list \<Rightarrow> int" where
  "count_domain d cads = int (length (filter (\<lambda>a. competitor_domain a = Some d) cads))"

definition dict_value :: "(string \<times> int) list \<Rightarrow> string \<Rightarrow> int" where
  "dict_value comps d = (case map_of comps d of Some n \<Rightarrow> n | None \<Rightarrow> 0)"


definition tally_ok ::
  "classified_ad list \<Rightarrow> int \<Rightarrow> int \<Rightarrow> int \<Rightarrow> (string \<times> int) list \<Rightarrow> bool" where
  "tally_ok cads cv cc uk comps =
     (cv = count_class CONVERTY cads \<and> cc = count_class CONCURRENT cads
      \<and> uk = count_class UNKNOWN cads
      \<and> sum_list (map snd comps) = cc
      \<and> distinct (map fst comps)
      \<and> (\<forall>d. dict_value comps d = count_domain d cads))"


section \<open>Properties of the classifier\<close>


lemma extract_domain_nonempty: "extract_domain urlparse_netloc u = Some h \<Longrightarrow> h \<noteq> []"
  by (auto simp: extract_domain_def Let_def split: option.splits if_splits)

lemma classify_urls_skip:
  "\<forall>v\<in>set pre. \<not> py_in (py_lower owned) (py_lower v)
       \<and> (\<forall>h. extract_domain urlparse_netloc v = Some h \<longrightarrow> is_ignored_domain h)
   \<Longrightarrow> classify_urls urlparse_netloc owned (pre @ rest) = classify_urls urlparse_netloc owned rest"
  by (induction pre) (auto split: option.splits)

lemma classify_urls_None_iff:
  "classify_urls urlparse_netloc owned urls = None \<longleftrightarrow>
     (\<forall>v\<in>set urls. \<not> py_in (py_lower owned) (py_lower v)
        \<and> (\<forall>h. extract_domain urlparse_netloc v = Some h \<longrightarrow> is_ignored_domain h))"
  by (induction urls) (auto split: option.splits dest: extract_domain_nonempty)

lemma classify_urls_Some:
  "classify_urls urlparse_netloc owned urls = Some r \<Longrightarrow>
     confidence r = High \<and>
     (classification r = CONVERTY \<and> competitor_domain r = None
        \<and> (\<exists>u\<in>set urls. destination_url r = Some u \<and> py_in (py_lower owned) (py_lower u))
      \<or> classification r = CONCURRENT
        \<and> (\<exists>u\<in>set urls. \<exists>h. destination_url r = Some u \<and> competitor_domain r = Some h
              \<and> extract_domain urlparse_netloc u = Some h \<and> \<not> is_ignored_domain h
              \<and> \<not> py_in (py_lower owned) (py_lower u)))"
  by (induction urls) (auto split: option.splits if_splits)

lemma classify_ad_total:
  "extract_urls_from_ad builtin_str ad = Inr urls \<Longrightarrow> \<exists>r. classify_ad builtin_str urlparse_netloc ad owned = Inr r"
  by (auto simp: classify_ad_def split: option.splits)

text \<open>
  Claim C9. Whenever \<open>classify_ad\<close> returns a result, its \<open>competitor_domain\<close> is present
  exactly when its classification is \<open>CONCURRENT\<close> (the spec's COMPETITOR): a \<open>CONVERTY\<close>
  (SELF) or \<open>UNKNOWN\<close> result carries none, a \<open>CONCURRENT\<close> result always carries one.
\<close>

theorem competitor_domain_iff_concurrent:
  "classify_ad builtin_str urlparse_netloc ad owned = Inr r \<Longrightarrow>
     (competitor_domain r \<noteq> None \<longleftrightarrow> classification r = CONCURRENT)"
  by (auto simp: classify_ad_def split: sum.splits if_splits option.splits
      dest!: classify_urls_Some)

theorem competitor_domain_iff_concurrent_witness:
  "classify_ad py_builtin_str py_urlparse_netloc
     [(''snapshot'', PDict [(''link_url'', PStr ''https://rivalshop.io/x'')])] ''tbshopp.com''
   = Inr \<lparr>classification = CONCURRENT, confidence = High,
           reason = ''URL pointe vers un domaine concurrent: rivalshop.io'',
           destination_url = Some ''https://rivalshop.io/x'',
           competitor_domain = Some ''rivalshop.io''\<rparr>
   \<and> (competitor_domain \<lparr>classification = CONCURRENT, confidence = High,
           reason = ''URL pointe vers un domaine concurrent: rivalshop.io'',
           destination_url = Some ''https://rivalshop.io/x'',
           competitor_domain = Some ''rivalshop.io''\<rparr> \<noteq> None
        \<longleftrightarrow> classification \<lparr>classification = CONCURRENT, confidence = High,
           reason = ''URL pointe vers un domaine concurrent: rivalshop.io'',
           destination_url = Some ''https://rivalshop.io/x'',
           competitor_domain = Some ''rivalshop.io''\<rparr> = CONCURRENT)"
proof -
  have run: "classify_ad py_builtin_str py_urlparse_netloc
     [(''snapshot'', PDict [(''link_url'', PStr ''https://rivalshop.io/x'')])] ''tbshopp.com''
   = Inr \<lparr>classification = CONCURRENT, confidence = High,
           reason = ''URL pointe vers un domaine concurrent: rivalshop.io'',
           destination_url = Some ''https://rivalshop.io/x'',
           competitor_domain = Some ''rivalshop.io''\<rparr>"
    by code_simp
  from competitor_domain_iff_concurrent [OF run] run show ?thesis
    by blast
qed

lemma py_in_iff: "py_in sub s \<longleftrightarrow> (\<exists>a b. s = a @ sub @ b)"
proof (induction s)
  case Nil
  then show ?case by auto
next
  case (Cons c cs)
  show ?case
  proof
    assume "py_in sub (c # cs)"
    then consider "prefix sub (c # cs)" | "py_in sub cs" by auto
    then show "\<exists>a b. c # cs = a @ sub @ b"
    proof cases
      case 1
      then obtain b where "c # cs = sub @ b" by (auto simp: prefix_def)
      then have "c # cs = [] @ sub @ b" by simp
      then show ?thesis by blast
    next
      case 2
      with Cons obtain a b where "cs = a @ sub @ b" by blast
      then have "c # cs = (c # a) @ sub @ b" by simp
      then show ?thesis by blast
    qed
  next
    assume "\<exists>a b. c # cs = a @ sub @ b"
    then obtain a b where ab: "c # cs = a @ sub @ b" by blast
    show "py_in sub (c # cs)"
    proof (cases a)
      case Nil
      with ab have "prefix sub (c # cs)" by (simp add: prefix_def)
      then show ?thesis by simp
    next
      case (Cons x a')
      with ab have "cs = a' @ sub @ b" by simp
      with Cons.IH have "py_in sub cs" by blast
      then show ?thesis by simp
    qed
  qed
qed

text \<open>
  Claim C1. The candidates are examined in extraction order. When every candidate before
  \<open>url\<close> was passed over (it does not contain the owned domain, and its host is missing
  or on the ignore list) and \<open>url\<close> contains the owned domain anywhere, compared without
  regard to case, the result is \<open>CONVERTY\<close> (SELF) with confidence high and
  \<open>destination_url = url\<close>, whatever the later candidates \<open>post\<close> are.
\<close>

theorem classify_converty_first_match:
  assumes "extract_urls_from_ad builtin_str ad = Inr (pre @ url # post)"
    and "\<forall>v\<in>set pre. \<not> py_in (py_lower owned) (py_lower v)
           \<and> (\<forall>h. extract_domain urlparse_netloc v = Some h \<longrightarrow> is_ignored_domain h)"
    and "py_lower url = a @ py_lower owned @ b"
  shows "classify_ad builtin_str urlparse_netloc ad owned =
           Inr \<lparr>classification = CONVERTY, confidence = High,
                reason = ''URL contient le domaine Converty: '' @ owned,
                destination_url = Some url, competitor_domain = None\<rparr>"
proof -
  from assms(3) have hit: "py_in (py_lower owned) (py_lower url)"
    unfolding py_in_iff by blast
  have "classify_urls urlparse_netloc owned (pre @ url # post)
          = classify_urls urlparse_netloc owned (url # post)"
    using assms(2) by (rule classify_urls_skip)
  with hit assms(1) show ?thesis
    by (simp add: classify_ad_def)
qed

theorem classify_converty_first_match_witness:
  "classify_ad py_builtin_str py_urlparse_netloc
     [(''snapshot'', PDict [(''link_url'', PStr ''https://l.facebook.com/l.php?u=1''),
        (''cards'', PList [PDict [(''link_url'', PStr ''https://Pay.example/TBshopp.COM/x'')]]),
        (''caption'', PStr ''see https://rival.io'')])]
     ''tbshopp.com''
   = Inr \<lparr>classification = CONVERTY, confidence = High,
           reason = ''URL contient le domaine Converty: tbshopp.com'',
           destination_url = Some ''https://Pay.example/TBshopp.COM/x'',
           competitor_domain = None\<rparr>"
proof -
  let ?ad = "[(''snapshot'', PDict [(''link_url'', PStr ''https://l.facebook.com/l.php?u=1''),
        (''cards'', PList [PDict [(''link_url'', PStr ''https://Pay.example/TBshopp.COM/x'')]]),
        (''caption'', PStr ''see https://rival.io'')])]"
  have urls: "extract_urls_from_ad py_builtin_str ?ad
      = Inr ([''https://l.facebook.com/l.php?u=1''] @ ''https://Pay.example/TBshopp.COM/x''
             # [''https://rival.io''])"
    by code_simp
  have miss: "\<not> py_in (py_lower ''tbshopp.com'') (py_lower ''https://l.facebook.com/l.php?u=1'')"
    by code_simp
  have host: "extract_domain py_urlparse_netloc ''https://l.facebook.com/l.php?u=1''
      = Some ''l.facebook.com''"
    by code_simp
  have ign: "is_ignored_domain ''l.facebook.com''"
    by code_simp
  have pre: "\<forall>v\<in>set [''https://l.facebook.com/l.php?u=1''].
      \<not> py_in (py_lower ''tbshopp.com'') (py_lower v)
      \<and> (\<forall>h. extract_domain py_urlparse_netloc v = Some h \<longrightarrow> is_ignored_domain h)"
    using miss host ign by simp
  have sub: "py_lower ''https://Pay.example/TBshopp.COM/x''
      = ''https://pay.example/'' @ py_lower ''tbshopp.com'' @ ''/x''"
    by code_simp
  from classify_converty_first_match [OF urls pre sub] show ?thesis
    by simp
qed

subsection \<open>The extraction loops\<close>

lemma keep_first_snoc:
  "keep_first (xs @ [x]) = (if x \<in> set xs then keep_first xs else keep_first xs @ [x])"
  by (simp add: keep_first_def)

lemma keep_first_distinct: "distinct xs \<Longrightarrow> keep_first xs = xs"
  by (simp add: keep_first_def distinct_remdups_id)

lemma set_keep_first: "set (keep_first xs) = set xs"
  by (simp add: keep_first_def)

lemma distinct_keep_first: "distinct (keep_first xs)"
  by (simp add: keep_first_def)

lemma keep_first_dup: "x \<in> set A \<Longrightarrow> keep_first (A @ x # R) = keep_first (A @ R)"
proof (induction R rule: rev_induct)
  case Nil
  then show ?case using keep_first_snoc [of A x] by simp
next
  case (snoc y R)
  have "keep_first (A @ x # R @ [y]) = keep_first ((A @ x # R) @ [y])" by simp
  also have "\<dots> = (if y \<in> set (A @ x # R) then keep_first (A @ x # R)
                      else keep_first (A @ x # R) @ [y])"
    by (rule keep_first_snoc)
  also have "\<dots> = (if y \<in> set (A @ R) then keep_first (A @ R) else keep_first (A @ R) @ [y])"
    using snoc by auto
  also have "\<dots> = keep_first ((A @ R) @ [y])"
    by (rule keep_first_snoc [symmetric])
  finally show ?case by simp
qed

lemma clean_url_Nil: "clean_url [] = []"
  by (simp add: clean_url_def py_strip_def py_rstrip_def)

lemma unique_urls_loop_spec:
  "distinct acc \<Longrightarrow> seen = set acc \<Longrightarrow> unique_urls_loop vs acc seen = Inr r \<Longrightarrow>
     r = keep_first (acc @ filter (\<lambda>u. u \<noteq> []) (map (\<lambda>v. clean_url (text_of v)) vs))
     \<and> list_all (\<lambda>v. \<exists>s. v = PStr s) vs"
proof (induction vs acc seen rule: unique_urls_loop.induct)
  case (1 unique_urls seen)
  then show ?case by (simp add: keep_first_distinct)
next
  case (2 u urls unique_urls seen)
  show ?case
  proof (cases "clean_url u \<noteq> [] \<and> clean_url u \<notin> seen")
    case True
    with 2 show ?thesis by (simp add: text_of_def Let_def)
  next
    case False
    with 2 have r: "r = keep_first (unique_urls @ filter (\<lambda>u. u \<noteq> [])
            (map (\<lambda>v. clean_url (text_of v)) urls))
        \<and> list_all (\<lambda>v. \<exists>s. v = PStr s) urls"
      by (auto simp: Let_def)
    from False 2(4) consider "clean_url u = []" | "clean_url u \<in> set unique_urls" by auto
    then show ?thesis
    proof cases
      case 1
      with r show ?thesis by (simp add: text_of_def)
    next
      case 2
      with r show ?thesis by (simp add: text_of_def keep_first_dup)
    qed
  qed
qed simp_all

lemma unique_urls_loop_total:
  "list_all (\<lambda>v. \<exists>s. v = PStr s) vs \<Longrightarrow> \<exists>r. unique_urls_loop vs acc seen = Inr r"
  by (induction vs acc seen rule: unique_urls_loop.induct) (auto simp: Let_def)

lemma collect_card_urls_spec:
  "collect_card_urls cs urls = Inr r \<Longrightarrow>
     r = urls @ filter truthy (map (\<lambda>c. field c ''link_url'') cs)
     \<and> list_all (\<lambda>c. \<exists>kvs. c = PDict kvs) cs"
  by (induction cs urls rule: collect_card_urls.induct)
     (auto simp: py_get_def field_def split: sum.splits pyval.splits option.splits if_splits)

lemma collect_card_urls_total:
  "list_all (\<lambda>c. \<exists>kvs. c = PDict kvs) cs \<Longrightarrow>
     collect_card_urls cs urls = Inr (urls @ filter truthy (map (\<lambda>c. field c ''link_url'') cs))"
  by (induction cs urls rule: collect_card_urls.induct)
     (auto simp: py_get_def field_def split: sum.splits pyval.splits option.splits if_splits)

lemma falsy_text: "\<not> truthy v \<Longrightarrow> text_of v = []"
  by (cases v) (auto simp: text_of_def)

lemma filter_clean_truthy:
  "filter (\<lambda>u. u \<noteq> []) (map (\<lambda>v. clean_url (text_of v)) (filter truthy xs))
     = filter (\<lambda>u. u \<noteq> []) (map (\<lambda>v. clean_url (text_of v)) xs)"
  by (induction xs) (auto simp: falsy_text clean_url_Nil)

lemma py_get_PDict:
  "py_get (PDict kvs) k d = Inr (case map_of kvs k of Some v \<Rightarrow> v | None \<Rightarrow> d)"
  by (simp add: py_get_def)

lemma py_get_Inr: "py_get obj k d = Inr v \<Longrightarrow> \<exists>kvs. obj = PDict kvs"
  by (cases obj) (auto simp: py_get_def)

lemma re_findall_urls_Nil: "re_findall_urls [] = []"
  by simp

lemma found_spec:
  "(if truthy v then re_findall v else Inr []) = Inr f \<Longrightarrow>
     f = map PStr (re_findall_urls (text_of v))"
  by (cases v) (auto simp: re_findall_def text_of_def split: if_splits)

lemma cards_spec:
  assumes "py_iter cards = Inr cs" and "collect_card_urls cs urls = Inr r"
  shows "cs = elements cards"
proof (cases cards)
  case (PStr s)
  with assms collect_card_urls_spec [OF assms(2)] show ?thesis
    by (cases s) (auto simp: py_iter_def elements_def)
next
  case (PDict kvs)
  with assms collect_card_urls_spec [OF assms(2)] show ?thesis
    by (cases kvs) (auto simp: py_iter_def elements_def)
qed (use assms in \<open>auto simp: py_iter_def elements_def\<close>)

lemma extract_urls_from_ad_spec:
  assumes a: "extract_urls_from_ad builtin_str ad = Inr urls"
  shows "urls = keep_first (filter (\<lambda>u. u \<noteq> [])
                  (map clean_url (spec_candidates builtin_str ad)))"
proof -
  define snapshot where "snapshot = (case map_of ad ''snapshot'' of Some v \<Rightarrow> v | None \<Rightarrow> PDict [])"
  from a obtain kvs where snap: "snapshot = PDict kvs"
    by (cases snapshot)
       (auto simp: extract_urls_from_ad_def snapshot_def [symmetric] py_get_def)
  define link where "link = (case map_of kvs ''link_url'' of Some v \<Rightarrow> v | None \<Rightarrow> PNone)"
  define cards where "cards = (case map_of kvs ''cards'' of Some v \<Rightarrow> v | None \<Rightarrow> PList [])"
  define caption where "caption = (case map_of kvs ''caption'' of Some v \<Rightarrow> v | None \<Rightarrow> PStr [])"
  define body where "body = (case map_of kvs ''body'' of Some v \<Rightarrow> v | None \<Rightarrow> PDict [])"
  define body_text where "body_text =
     (case body of
        PDict b \<Rightarrow> py_get body ''text'' (PStr [])
      | _ \<Rightarrow> (case py_str builtin_str body of Inl e \<Rightarrow> Inl e | Inr s \<Rightarrow> Inr (PStr s)))"
  from a obtain cs urls2 f1 bt f2 where
    it: "py_iter cards = Inr cs"
    and cc: "collect_card_urls cs (if truthy link then [link] else []) = Inr urls2"
    and c1: "(if truthy caption then re_findall caption else Inr []) = Inr f1"
    and bt0: "(case body of
                 PDict b \<Rightarrow> py_get body ''text'' (PStr [])
               | _ \<Rightarrow> (case py_str builtin_str body of
                        Inl e \<Rightarrow> Inl e | Inr s \<Rightarrow> Inr (PStr s))) = Inr bt"
    and c2: "(if truthy bt then re_findall bt else Inr []) = Inr f2"
    and lp: "unique_urls_loop (urls2 @ f1 @ f2) [] {} = Inr urls"
    unfolding extract_urls_from_ad_def snapshot_def [symmetric] snap py_get_PDict
      Let_def link_def [symmetric] cards_def [symmetric] caption_def [symmetric]
      body_def [symmetric]
    by (auto split: sum.splits)
  from bt0 have bt: "body_text = Inr bt" by (simp add: body_text_def)
  have cs: "cs = elements cards" using it cc by (rule cards_spec)
  have urls2: "urls2 = filter truthy (link # map (\<lambda>c. field c ''link_url'') cs)"
    using collect_card_urls_spec [OF cc] by auto
  have f1: "f1 = map PStr (re_findall_urls (text_of caption))" using c1 by (rule found_spec)
  have f2: "f2 = map PStr (re_findall_urls (text_of bt))" using c2 by (rule found_spec)
  have snapf: "field (PDict ad) ''snapshot'' = snapshot \<or>
      (map_of ad ''snapshot'' = None \<and> field (PDict ad) ''snapshot'' = PNone \<and> kvs = [])"
    using snap by (auto simp: field_def snapshot_def split: option.splits)
  have e1: "field snapshot ''link_url'' = link"
    by (simp add: snap field_def link_def)
  have e2: "elements (field snapshot ''cards'') = elements cards"
    by (auto simp: snap field_def cards_def elements_def split: option.splits)
  have e3: "text_of (field snapshot ''caption'') = text_of caption"
    by (auto simp: snap field_def caption_def text_of_def split: option.splits)
  have e4: "spec_body_text builtin_str snapshot = text_of bt"
  proof (cases "map_of kvs ''body''")
    case None
    with bt show ?thesis
      by (auto simp: snap spec_body_text_def body_text_def body_def py_get_def text_of_def)
  next
    case (Some v)
    then have bv: "body = v" by (simp add: body_def)
    show ?thesis
      using bt Some
      by (cases v)
         (auto simp: bv snap spec_body_text_def body_text_def py_get_def py_str_def field_def
            text_of_def split: option.splits sum.splits)
  qed
  have cand: "spec_candidates builtin_str ad =
      [text_of link] @ map (\<lambda>c. text_of (field c ''link_url'')) cs
      @ re_findall_urls (text_of caption) @ re_findall_urls (text_of bt)"
  proof -
    from snapf show ?thesis
    proof
      assume "field (PDict ad) ''snapshot'' = snapshot"
      then show ?thesis
        by (simp add: spec_candidates_def Let_def e1 e2 e3 e4 cs)
    next
      assume n: "map_of ad ''snapshot'' = None \<and> field (PDict ad) ''snapshot'' = PNone \<and> kvs = []"
      then have "link = PNone" "cards = PList []" "caption = PStr []" "body = PDict []"
        by (simp_all add: link_def cards_def caption_def body_def)
      moreover from this bt have "bt = PStr []" by (simp add: body_text_def py_get_def)
      moreover from calculation it have "cs = []" by (simp add: py_iter_def)
      ultimately show ?thesis using n
        by (simp add: spec_candidates_def Let_def field_def text_of_def elements_def
            spec_body_text_def)
    qed
  qed
  have "filter (\<lambda>u. u \<noteq> []) (map (\<lambda>v. clean_url (text_of v)) (urls2 @ f1 @ f2))
      = filter (\<lambda>u. u \<noteq> []) (map clean_url (spec_candidates builtin_str ad))"
  proof -
    have A: "filter (\<lambda>u. u \<noteq> []) (map (\<lambda>v. clean_url (text_of v)) urls2)
        = filter (\<lambda>u. u \<noteq> [])
            (map (\<lambda>v. clean_url (text_of v)) (link # map (\<lambda>c. field c ''link_url'') cs))"
      unfolding urls2 by (rule filter_clean_truthy)
    have B: "map (\<lambda>v. clean_url (text_of v)) (map PStr xs) = map clean_url xs" for xs
      by (simp add: text_of_def)
    show ?thesis
      unfolding cand map_append filter_append A f1 f2 B
      by (simp add: comp_def)
  qed
  with unique_urls_loop_spec [OF _ _ lp] show ?thesis
    by simp
qed

lemma rev_dropWhile_rev_prefix: "\<exists>zs. t = rev (dropWhile P (rev t)) @ zs"
proof -
  have "rev (dropWhile P (rev t)) @ rev (takeWhile P (rev t))
      = rev (takeWhile P (rev t) @ dropWhile P (rev t))"
    by (simp only: rev_append)
  also have "\<dots> = rev (rev t)" by (simp only: takeWhile_dropWhile_id)
  finally have "t = rev (dropWhile P (rev t)) @ rev (takeWhile P (rev t))" by simp
  then show ?thesis ..
qed

lemma hd_rev_dropWhile_rev:
  "rev (dropWhile P (rev t)) \<noteq> [] \<Longrightarrow> hd (rev (dropWhile P (rev t))) = hd t"
  using rev_dropWhile_rev_prefix [of t P] by (metis hd_append2)

lemma clean_url_trimmed:
  assumes "clean_url u \<noteq> []"
  shows "\<not> py_isspace (hd (clean_url u)) \<and> \<not> trailing_punctuation (last (clean_url u))"
proof -
  let ?Q = "\<lambda>c. c \<in> set ''.,;:!?)''"
  let ?t = "dropWhile py_isspace u"
  let ?s = "py_strip u"
  from assms have s: "?s \<noteq> []" by (auto simp: clean_url_def py_rstrip_def)
  have t: "?t \<noteq> []"
  proof
    assume e: "?t = []"
    have "?s = rev (dropWhile py_isspace (rev ?t))" by (simp only: py_strip_def)
    also have "\<dots> = []" unfolding e by simp
    finally show False using s by simp
  qed
  have "hd (clean_url u) = hd ?s"
    using assms unfolding clean_url_def py_rstrip_def by (rule hd_rev_dropWhile_rev)
  also have "\<dots> = hd ?t"
    using s unfolding py_strip_def by (rule hd_rev_dropWhile_rev)
  finally have "\<not> py_isspace (hd (clean_url u))"
    using t hd_dropWhile [of py_isspace u] by simp
  moreover have "\<not> ?Q (last (clean_url u))"
  proof -
    from assms have d: "dropWhile ?Q (rev ?s) \<noteq> []" by (simp add: clean_url_def py_rstrip_def)
    have "last (clean_url u) = hd (dropWhile ?Q (rev ?s))"
      using d by (simp add: clean_url_def py_rstrip_def last_rev)
    with hd_dropWhile [OF d] show ?thesis by simp
  qed
  ultimately show ?thesis by (simp add: trailing_punctuation_def)
qed

lemma drop_trailing_rev: "rev (dropWhile P (rev s)) = drop_trailing P s"
proof -
  define d where "d = dropWhile P (rev s)"
  define t where "t = takeWhile P (rev s)"
  have "rev d @ rev t = rev (t @ d)" by (simp only: rev_append)
  also have "\<dots> = rev (rev s)" unfolding d_def t_def by (simp only: takeWhile_dropWhile_id)
  finally have s: "rev d @ rev t = s" by simp
  then have "length s = length d + length t" by (metis length_append length_rev)
  then have "take (length s - length t) (rev d @ rev t) = rev d" by simp
  then show ?thesis unfolding s by (simp add: drop_trailing_def d_def t_def)
qed

lemma drop_trailing_decomp: "\<exists>w. s = drop_trailing P s @ w \<and> list_all P w"
proof -
  have "rev (dropWhile P (rev s)) @ rev (takeWhile P (rev s))
      = rev (takeWhile P (rev s) @ dropWhile P (rev s))"
    by (simp only: rev_append)
  also have "\<dots> = rev (rev s)" by (simp only: takeWhile_dropWhile_id)
  finally have "s = drop_trailing P s @ rev (takeWhile P (rev s))"
    by (simp add: drop_trailing_rev)
  moreover have "list_all P (rev (takeWhile P (rev s)))"
    by (auto simp: list_all_iff dest: set_takeWhileD)
  ultimately show ?thesis by blast
qed

lemma punctuation_set: "(\<lambda>c. c \<in> set ''.,;:!?)'') = trailing_punctuation"
  by (auto simp: trailing_punctuation_def fun_eq_iff)

lemma clean_url_spec_trim: "clean_url u = spec_trim u"
  unfolding clean_url_def py_rstrip_def py_strip_def spec_trim_def punctuation_set
    drop_trailing_rev
  by (rule refl)

lemma spec_trim_decomp:
  "\<exists>a b. c = a @ spec_trim c @ b \<and> list_all py_isspace a
       \<and> list_all (\<lambda>x. py_isspace x \<or> trailing_punctuation x) b"
proof -
  define t where "t = dropWhile py_isspace c"
  define s1 where "s1 = drop_trailing py_isspace t"
  from drop_trailing_decomp [of t py_isspace] obtain w1
    where w1: "t = s1 @ w1" "list_all py_isspace w1" by (auto simp: s1_def)
  from drop_trailing_decomp [of s1 trailing_punctuation] obtain w2
    where w2: "s1 = spec_trim c @ w2" "list_all trailing_punctuation w2"
    by (auto simp: spec_trim_def s1_def t_def)
  have "c = takeWhile py_isspace c @ t" by (simp add: t_def)
  with w1 w2 have "c = takeWhile py_isspace c @ spec_trim c @ (w2 @ w1)" by simp
  moreover have "list_all py_isspace (takeWhile py_isspace c)"
    by (auto simp: list_all_iff dest: set_takeWhileD)
  moreover have "list_all (\<lambda>x. py_isspace x \<or> trailing_punctuation x) (w2 @ w1)"
    using w1 w2 by (auto simp: list_all_iff)
  ultimately show ?thesis by blast
qed

lemma digits_length: "10 ^ k \<le> n \<Longrightarrow> k < length (digits n)"
proof (induction k arbitrary: n)
  case 0
  show ?case by (subst digits.simps) simp
next
  case (Suc k)
  from Suc.prems have "10 * 10 ^ k \<le> n" by simp
  then have "10 ^ k \<le> n div 10" by linarith
  then have "k < length (digits (n div 10))" by (rule Suc.IH)
  moreover have "(1 :: nat) \<le> 10 ^ k" by simp
  with \<open>10 * 10 ^ k \<le> n\<close> have "\<not> n < 10" by linarith
  then have "digits n = digits (n div 10) @ [char_of (48 + n mod 10)]"
    by (subst digits.simps) simp
  ultimately show ?case by simp
qed

lemma long_int_not_convertible:
  assumes "10 ^ 4300 \<le> \<bar>i\<bar>"
  shows "\<not> int_convertible i"
proof -
  define k :: nat where "k = 4300"
  from assms have "int (10 ^ k) \<le> \<bar>i\<bar>" unfolding k_def by (simp only: of_nat_power of_nat_numeral)
  then have "10 ^ k \<le> nat \<bar>i\<bar>" by linarith
  then have "k < length (digits (nat \<bar>i\<bar>))" by (rule digits_length)
  then show ?thesis unfolding int_convertible_def k_def by simp
qed

lemma classify_ad_long_int_body:
  assumes "\<not> int_convertible i"
  shows "classify_ad py_builtin_str urlparse_netloc
           [(''snapshot'', PDict [(''body'', PInt i)])] owned = Inl ValueError"
  using assms
  by (simp add: classify_ad_def extract_urls_from_ad_def py_get_def py_str_def py_builtin_str_def
      py_iter_def Let_def)

lemma found_total:
  "str_or_falsy v \<Longrightarrow>
     (if truthy v then re_findall v else Inr []) = Inr (map PStr (re_findall_urls (text_of v)))"
  by (cases v) (auto simp: str_or_falsy_def re_findall_def text_of_def)

lemma truthy_str: "str_or_falsy v \<Longrightarrow> truthy v \<Longrightarrow> \<exists>s. v = PStr s"
  by (cases v) (auto simp: str_or_falsy_def)

lemma well_typed_cards:
  "list_all well_typed_card cs \<Longrightarrow>
     list_all (\<lambda>c. \<exists>kvs. c = PDict kvs) cs
     \<and> list_all (\<lambda>v. \<exists>s. v = PStr s) (filter truthy (map (\<lambda>c. field c ''link_url'') cs))"
  by (induction cs) (auto simp: well_typed_card_def dest: truthy_str split: pyval.splits)

lemma extract_urls_from_ad_total:
  assumes "well_typed_ad builtin_str ad"
  shows "\<exists>urls. extract_urls_from_ad builtin_str ad = Inr urls"
proof -
  define snapshot where "snapshot = (case map_of ad ''snapshot'' of Some v \<Rightarrow> v | None \<Rightarrow> PDict [])"
  have wt: "well_typed_snapshot builtin_str snapshot"
  proof (cases "map_of ad ''snapshot''")
    case None
    then have "snapshot = PDict []" by (simp add: snapshot_def)
    then show ?thesis by (simp add: well_typed_snapshot_def str_or_falsy_def field_def)
  next
    case (Some v)
    with assms show ?thesis by (simp add: well_typed_ad_def snapshot_def)
  qed
  then obtain kvs where snap: "snapshot = PDict kvs"
    by (cases snapshot) (auto simp: well_typed_snapshot_def)
  define link where "link = (case map_of kvs ''link_url'' of Some v \<Rightarrow> v | None \<Rightarrow> PNone)"
  define cards where "cards = (case map_of kvs ''cards'' of Some v \<Rightarrow> v | None \<Rightarrow> PList [])"
  define caption where "caption = (case map_of kvs ''caption'' of Some v \<Rightarrow> v | None \<Rightarrow> PStr [])"
  define body where "body = (case map_of kvs ''body'' of Some v \<Rightarrow> v | None \<Rightarrow> PDict [])"
  from wt have l: "str_or_falsy link"
    by (auto simp: snap well_typed_snapshot_def link_def field_def split: option.splits)
  from wt obtain cs where cs: "cards = PList cs" "list_all well_typed_card cs"
    by (auto simp: snap well_typed_snapshot_def cards_def split: option.splits pyval.splits)
  from wt have c: "str_or_falsy caption"
    by (auto simp: snap well_typed_snapshot_def caption_def field_def str_or_falsy_def
        split: option.splits)
  have wb: "well_typed_body builtin_str body"
  proof (cases "map_of kvs ''body''")
    case None
    then show ?thesis
      by (simp add: body_def well_typed_body_def field_def str_or_falsy_def)
  next
    case (Some v)
    with wt show ?thesis by (simp add: snap well_typed_snapshot_def body_def)
  qed
  then obtain bt where bt: "(case body of
                 PDict b \<Rightarrow> py_get body ''text'' (PStr [])
               | _ \<Rightarrow> (case py_str builtin_str body of
                        Inl e \<Rightarrow> Inl e | Inr s \<Rightarrow> Inr (PStr s))) = Inr bt" "str_or_falsy bt"
    by (cases body)
       (auto simp: well_typed_body_def field_def str_or_falsy_def py_get_def py_str_def
        split: option.splits sum.splits)
  let ?urls = "if truthy link then [link] else []"
  let ?urls2 = "?urls @ filter truthy (map (\<lambda>c. field c ''link_url'') cs)"
  let ?f1 = "map PStr (re_findall_urls (text_of caption))"
  let ?f2 = "map PStr (re_findall_urls (text_of bt))"
  have cc: "collect_card_urls cs ?urls = Inr ?urls2"
    using well_typed_cards [OF cs(2)] by (intro collect_card_urls_total) simp
  have "list_all (\<lambda>v. \<exists>s. v = PStr s) (?urls2 @ ?f1 @ ?f2)"
    using well_typed_cards [OF cs(2)] truthy_str [OF l] by (auto simp: list_all_iff)
  then obtain r where r: "unique_urls_loop (?urls2 @ ?f1 @ ?f2) [] {} = Inr r"
    using unique_urls_loop_total by blast
  have "extract_urls_from_ad builtin_str ad = Inr r"
    unfolding extract_urls_from_ad_def snapshot_def [symmetric] snap py_get_PDict
      Let_def link_def [symmetric] cards_def [symmetric] caption_def [symmetric]
      body_def [symmetric]
    using cc r bt found_total [OF c] found_total [OF bt(2)]
    by (simp add: cs(1) py_iter_def)
  then show ?thesis ..
qed

subsection \<open>Results of the classifier\<close>

text \<open>
  Claim C3. When the extractor returns the candidates \<open>urls\<close>, \<open>classify_ad\<close> returns a result,
  and the result is \<open>UNKNOWN\<close> exactly when no candidate yields \<open>CONVERTY\<close> (it contains the
  owned domain) or \<open>CONCURRENT\<close> (its host is extracted and is not ignored). With no
  candidate at all the result is \<open>UNKNOWN\<close> with confidence low and no \<open>destination_url\<close>;
  an \<open>UNKNOWN\<close> result over a non-empty list has confidence medium and the first candidate
  as \<open>destination_url\<close>, whether that candidate was ignored or malformed.
\<close>

theorem classify_unknown_cases:
  assumes "extract_urls_from_ad builtin_str ad = Inr urls"
  shows "\<exists>r. classify_ad builtin_str urlparse_netloc ad owned = Inr r
     \<and> (classification r = UNKNOWN \<longleftrightarrow>
          (\<forall>u\<in>set urls. \<not> py_in (py_lower owned) (py_lower u)
             \<and> (\<forall>h. extract_domain urlparse_netloc u = Some h \<longrightarrow> is_ignored_domain h)))
     \<and> (urls = [] \<longrightarrow>
          classification r = UNKNOWN \<and> confidence r = Low \<and> destination_url r = None)
     \<and> (urls \<noteq> [] \<and> classification r = UNKNOWN \<longrightarrow>
          confidence r = Medium \<and> destination_url r = Some (hd urls))"
proof (cases "classify_urls urlparse_netloc owned urls")
  case None
  with assms show ?thesis
    using classify_urls_None_iff [of urlparse_netloc owned urls]
    by (cases urls) (simp_all add: classify_ad_def)
next
  case (Some r)
  then have ne: "urls \<noteq> []" by auto
  from Some have "\<not> (\<forall>u\<in>set urls. \<not> py_in (py_lower owned) (py_lower u)
             \<and> (\<forall>h. extract_domain urlparse_netloc u = Some h \<longrightarrow> is_ignored_domain h))"
    using classify_urls_None_iff [of urlparse_netloc owned urls] by simp
  moreover from classify_urls_Some [OF Some] have "classification r \<noteq> UNKNOWN" by auto
  moreover from assms Some ne have "classify_ad builtin_str urlparse_netloc ad owned = Inr r"
    by (simp add: classify_ad_def)
  ultimately show ?thesis using ne by blast
qed

theorem classify_unknown_cases_witness:
  "\<exists>r. classify_ad py_builtin_str py_urlparse_netloc
          [(''snapshot'', PDict [(''link_url'', PStr ''https://l.facebook.com/l.php?u=abc'')])]
          ''tbshopp.com'' = Inr r
      \<and> classification r = UNKNOWN \<and> confidence r = Medium
      \<and> destination_url r = Some ''https://l.facebook.com/l.php?u=abc''"
proof -
  let ?ad = "[(''snapshot'', PDict [(''link_url'', PStr ''https://l.facebook.com/l.php?u=abc'')])]"
  have urls: "extract_urls_from_ad py_builtin_str ?ad = Inr [''https://l.facebook.com/l.php?u=abc'']"
    by code_simp
  have miss: "\<not> py_in (py_lower ''tbshopp.com'') (py_lower ''https://l.facebook.com/l.php?u=abc'')"
    by code_simp
  have host: "extract_domain py_urlparse_netloc ''https://l.facebook.com/l.php?u=abc''
      = Some ''l.facebook.com''"
    by code_simp
  have ign: "is_ignored_domain ''l.facebook.com''"
    by code_simp
  have all: "\<forall>u\<in>set [''https://l.facebook.com/l.php?u=abc''].
      \<not> py_in (py_lower ''tbshopp.com'') (py_lower u)
      \<and> (\<forall>h. extract_domain py_urlparse_netloc u = Some h \<longrightarrow> is_ignored_domain h)"
    using miss host ign by simp
  from classify_unknown_cases [OF urls, of py_urlparse_netloc "''tbshopp.com''"] all
  show ?thesis by auto
qed

text \<open>
  Claim C2, as stated, fails: a first candidate whose host is extracted and is not ignored,
  with no earlier candidate, is classified \<open>CONVERTY\<close> and not \<open>CONCURRENT\<close> when the
  candidate itself contains the owned domain, because the owned-domain test comes first.
\<close>

theorem classify_concurrent_literal_counterexample:
  "extract_urls_from_ad py_builtin_str [(''snapshot'', PDict [(''link_url'', PStr ''https://tbshopp.com/buy'')])]
     = Inr [''https://tbshopp.com/buy'']
   \<and> extract_domain py_urlparse_netloc ''https://tbshopp.com/buy'' = Some ''tbshopp.com''
   \<and> \<not> is_ignored_domain ''tbshopp.com''
   \<and> classify_ad py_builtin_str py_urlparse_netloc
        [(''snapshot'', PDict [(''link_url'', PStr ''https://tbshopp.com/buy'')])] ''tbshopp.com''
      = Inr \<lparr>classification = CONVERTY, confidence = High,
              reason = ''URL contient le domaine Converty: tbshopp.com'',
              destination_url = Some ''https://tbshopp.com/buy'', competitor_domain = None\<rparr>"
  by code_simp

text \<open>
  Claim C2, amended. Let every candidate before \<open>url\<close> be passed over, and let \<open>url\<close>
  itself not contain the owned domain. If the host of \<open>url\<close> is extracted and is not
  ignored, the result is \<open>CONCURRENT\<close> with confidence high, \<open>competitor_domain\<close> the host and
  \<open>destination_url\<close> the URL. A candidate without the owned domain whose host is ignored
  is skipped: the loop goes on with the remaining candidates. A host returned as
  \<open>competitor_domain\<close> is never ignored. A host is ignored when one of the eight entries
  occurs in its lower-cased text.
\<close>

theorem classify_concurrent_first_commercial:
  "(extract_urls_from_ad builtin_str ad = Inr (pre @ url # post)
      \<and> (\<forall>v\<in>set pre. \<not> py_in (py_lower owned) (py_lower v)
            \<and> (\<forall>h. extract_domain urlparse_netloc v = Some h \<longrightarrow> is_ignored_domain h))
      \<and> \<not> py_in (py_lower owned) (py_lower url)
      \<and> extract_domain urlparse_netloc url = Some host \<and> \<not> is_ignored_domain host
    \<longrightarrow> classify_ad builtin_str urlparse_netloc ad owned =
          Inr \<lparr>classification = CONCURRENT, confidence = High,
               reason = ''URL pointe vers un domaine concurrent: '' @ host,
               destination_url = Some url, competitor_domain = Some host\<rparr>)
   \<and> (\<not> py_in (py_lower owned) (py_lower url)
      \<and> extract_domain urlparse_netloc url = Some host \<and> is_ignored_domain host
    \<longrightarrow> classify_urls urlparse_netloc owned (url # rest) = classify_urls urlparse_netloc owned rest)
   \<and> (classify_ad builtin_str urlparse_netloc ad owned = Inr r \<and> competitor_domain r = Some h
    \<longrightarrow> \<not> is_ignored_domain h)
   \<and> (is_ignored_domain h \<longleftrightarrow>
        list_ex (\<lambda>ignored. py_in ignored (py_lower h))
          [''facebook.com'', ''instagram.com'', ''fb.com'', ''fb.me'', ''bit.ly'',
           ''tinyurl.com'', ''l.facebook.com'', ''l.instagram.com''])"
proof (intro conjI impI)
  assume a: "extract_urls_from_ad builtin_str ad = Inr (pre @ url # post)
      \<and> (\<forall>v\<in>set pre. \<not> py_in (py_lower owned) (py_lower v)
            \<and> (\<forall>h. extract_domain urlparse_netloc v = Some h \<longrightarrow> is_ignored_domain h))
      \<and> \<not> py_in (py_lower owned) (py_lower url)
      \<and> extract_domain urlparse_netloc url = Some host \<and> \<not> is_ignored_domain host"
  then have "classify_urls urlparse_netloc owned (pre @ url # post)
          = classify_urls urlparse_netloc owned (url # post)"
    by (intro classify_urls_skip) blast
  moreover from a have "host \<noteq> []" by (auto dest: extract_domain_nonempty)
  ultimately show "classify_ad builtin_str urlparse_netloc ad owned =
          Inr \<lparr>classification = CONCURRENT, confidence = High,
               reason = ''URL pointe vers un domaine concurrent: '' @ host,
               destination_url = Some url, competitor_domain = Some host\<rparr>"
    using a by (simp add: classify_ad_def)
next
  assume "\<not> py_in (py_lower owned) (py_lower url)
      \<and> extract_domain urlparse_netloc url = Some host \<and> is_ignored_domain host"
  then show "classify_urls urlparse_netloc owned (url # rest) = classify_urls urlparse_netloc owned rest"
    by simp
next
  assume a: "classify_ad builtin_str urlparse_netloc ad owned = Inr r \<and> competitor_domain r = Some h"
  then show "\<not> is_ignored_domain h"
    by (auto simp: classify_ad_def split: sum.splits if_splits option.splits
        dest!: classify_urls_Some)
next
  show "is_ignored_domain h \<longleftrightarrow>
        list_ex (\<lambda>ignored. py_in ignored (py_lower h))
          [''facebook.com'', ''instagram.com'', ''fb.com'', ''fb.me'', ''bit.ly'',
           ''tinyurl.com'', ''l.facebook.com'', ''l.instagram.com'']"
    by (simp only: is_ignored_domain_def IGNORED_DOMAINS_def)
qed

theorem classify_concurrent_first_commercial_witness:
  "classify_ad py_builtin_str py_urlparse_netloc
     [(''snapshot'', PDict [(''link_url'', PStr ''https://www.Instagram.com/rival''),
        (''caption'', PStr ''shop at https://www.RivalShop.io:443/x! or https://other.example'')])]
     ''tbshopp.com''
   = Inr \<lparr>classification = CONCURRENT, confidence = High,
           reason = ''URL pointe vers un domaine concurrent: rivalshop.io'',
           destination_url = Some ''https://www.RivalShop.io:443/x'',
           competitor_domain = Some ''rivalshop.io''\<rparr>
   \<and> \<not> is_ignored_domain ''rivalshop.io''"
proof -
  let ?ad = "[(''snapshot'', PDict [(''link_url'', PStr ''https://www.Instagram.com/rival''),
        (''caption'', PStr ''shop at https://www.RivalShop.io:443/x! or https://other.example'')])]"
  have urls: "extract_urls_from_ad py_builtin_str ?ad
      = Inr ([''https://www.Instagram.com/rival''] @ ''https://www.RivalShop.io:443/x''
             # [''https://other.example''])"
    by code_simp
  have miss: "\<not> py_in (py_lower ''tbshopp.com'') (py_lower ''https://www.Instagram.com/rival'')"
    by code_simp
  have host1: "extract_domain py_urlparse_netloc ''https://www.Instagram.com/rival''
      = Some ''instagram.com''"
    by code_simp
  have ign: "is_ignored_domain ''instagram.com''"
    by code_simp
  have pre: "\<forall>v\<in>set [''https://www.Instagram.com/rival''].
      \<not> py_in (py_lower ''tbshopp.com'') (py_lower v)
      \<and> (\<forall>h. extract_domain py_urlparse_netloc v = Some h \<longrightarrow> is_ignored_domain h)"
    using miss host1 ign by simp
  have miss2: "\<not> py_in (py_lower ''tbshopp.com'') (py_lower ''https://www.RivalShop.io:443/x'')"
    by code_simp
  have host2: "extract_domain py_urlparse_netloc ''https://www.RivalShop.io:443/x''
      = Some ''rivalshop.io''"
    by code_simp
  have nign: "\<not> is_ignored_domain ''rivalshop.io''"
    by code_simp
  have run: "classify_ad py_builtin_str py_urlparse_netloc ?ad ''tbshopp.com''
      = Inr \<lparr>classification = CONCURRENT, confidence = High,
           reason = ''URL pointe vers un domaine concurrent: rivalshop.io'',
           destination_url = Some ''https://www.RivalShop.io:443/x'',
           competitor_domain = Some ''rivalshop.io''\<rparr>"
    using classify_concurrent_first_commercial
      [of py_builtin_str ?ad "[''https://www.Instagram.com/rival'']"
          "''https://www.RivalShop.io:443/x''"
          "[''https://other.example'']" "''tbshopp.com''" py_urlparse_netloc "''rivalshop.io''"]
      urls pre miss2 host2 nign
    by simp
  from run nign show ?thesis by simp
qed

subsection \<open>The extractor against its specification\<close>

lemma keep_first_Cons: "keep_first (x # xs) = x # keep_first (removeAll x xs)"
proof (induction xs rule: rev_induct)
  case Nil
  show ?case by (simp add: keep_first_def)
next
  case (snoc y ys)
  have "keep_first (x # ys @ [y]) = keep_first ((x # ys) @ [y])" by simp
  also have "\<dots> = (if y \<in> set (x # ys) then keep_first (x # ys) else keep_first (x # ys) @ [y])"
    by (rule keep_first_snoc)
  finally have l: "keep_first (x # ys @ [y])
      = (if y \<in> set (x # ys) then keep_first (x # ys) else keep_first (x # ys) @ [y])" .
  show ?case
  proof (cases "y = x")
    case True
    with l snoc show ?thesis by simp
  next
    case False
    then have "keep_first (removeAll x (ys @ [y])) = keep_first (removeAll x ys @ [y])" by simp
    also have "\<dots> = (if y \<in> set ys then keep_first (removeAll x ys)
                        else keep_first (removeAll x ys) @ [y])"
      using False by (simp add: keep_first_snoc)
    finally show ?thesis using l snoc False by simp
  qed
qed

text \<open>
  Claim C6, as stated, fails in one point: a URL is not always free of surrounding white
  space. White space that stands before the trailing punctuation survives, because the
  punctuation is removed after the white space: \<open>https://a.com .\<close> comes out with a space
  at its end.
\<close>

theorem extract_urls_trailing_space_counterexample:
  "extract_urls_from_ad py_builtin_str
     [(''snapshot'', PDict [(''link_url'', PStr ''https://a.com .'')])]
   = Inr [''https://a.com '']
   \<and> py_isspace (last ''https://a.com '')"
  by code_simp

text \<open>
  Claim C6, amended. Whenever the extractor returns, its result is \<open>spec_extract_urls\<close>: the
  candidates in the order \<open>snapshot.link_url\<close>, each card's \<open>link_url\<close> in card order, the
  matches of \<open>https?://\<close> in the caption, the matches in the body text (\<open>body.text\<close> for a
  structured body, the body itself when it is text, its \<open>str\<close> otherwise); each with its
  leading white space, then its trailing white space, then its trailing \<open>.,;:!?)\<close> removed;
  entries left empty dropped; duplicates removed by equality of strings, the first occurrence
  kept (\<open>keep_first_Cons\<close>). The result has no duplicates and no empty entry; no entry starts
  with white space or ends with one of the punctuation characters; and every entry is a
  candidate without a leading stretch of white space and without a trailing stretch of white
  space and punctuation. In the examples, URLs that differ only in case are both kept, with
  a structured body, with a body that is text, and with a body that is a list.
\<close>

theorem extract_urls_order_clean_dedup:
  assumes "extract_urls_from_ad builtin_str ad = Inr urls"
  shows "urls = spec_extract_urls builtin_str ad
     \<and> distinct urls
     \<and> (\<forall>u\<in>set urls. u \<noteq> [] \<and> \<not> py_isspace (hd u) \<and> \<not> trailing_punctuation (last u)
           \<and> (\<exists>c\<in>set (spec_candidates builtin_str ad). \<exists>a b. c = a @ u @ b
                 \<and> list_all py_isspace a
                 \<and> list_all (\<lambda>x. py_isspace x \<or> trailing_punctuation x) b))"
proof -
  have "map clean_url = map spec_trim"
    by (simp add: fun_eq_iff clean_url_spec_trim)
  with extract_urls_from_ad_spec [OF assms] have eq: "urls = spec_extract_urls builtin_str ad"
    by (simp add: spec_extract_urls_def)
  have "distinct urls"
    unfolding eq spec_extract_urls_def by (rule distinct_keep_first)
  moreover have "u \<noteq> [] \<and> \<not> py_isspace (hd u) \<and> \<not> trailing_punctuation (last u)
           \<and> (\<exists>c\<in>set (spec_candidates builtin_str ad). \<exists>a b. c = a @ u @ b
                 \<and> list_all py_isspace a
                 \<and> list_all (\<lambda>x. py_isspace x \<or> trailing_punctuation x) b)"
    if "u \<in> set urls" for u
  proof -
    from that obtain c where c: "c \<in> set (spec_candidates builtin_str ad)" "u = spec_trim c"
        "u \<noteq> []"
      unfolding eq spec_extract_urls_def set_keep_first by auto
    from c(2,3) clean_url_trimmed [of c]
    have "\<not> py_isspace (hd u) \<and> \<not> trailing_punctuation (last u)"
      by (simp add: clean_url_spec_trim)
    moreover from spec_trim_decomp [of c] c(2)
    have "\<exists>a b. c = a @ u @ b \<and> list_all py_isspace a
        \<and> list_all (\<lambda>x. py_isspace x \<or> trailing_punctuation x) b"
      by simp
    ultimately show ?thesis using c(1,3) by blast
  qed
  ultimately show ?thesis using eq by blast
qed

theorem extract_urls_order_clean_dedup_witness:
  "extract_urls_from_ad py_builtin_str
     [(''snapshot'', PDict [(''link_url'', PStr '' https://A.com/x). ''),
        (''cards'', PList [PDict [(''link_url'', PStr ''https://a.com/x'')], PDict []]),
        (''caption'', PStr ''go https://A.com/x, now''),
        (''body'', PDict [(''text'', PStr ''x http://b.c! <https://a.com/x>'')])])]
   = Inr [''https://A.com/x'', ''https://a.com/x'', ''http://b.c'']
   \<and> [''https://A.com/x'', ''https://a.com/x'', ''http://b.c'']
     = spec_extract_urls py_builtin_str
         [(''snapshot'', PDict [(''link_url'', PStr '' https://A.com/x). ''),
            (''cards'', PList [PDict [(''link_url'', PStr ''https://a.com/x'')], PDict []]),
            (''caption'', PStr ''go https://A.com/x, now''),
            (''body'', PDict [(''text'', PStr ''x http://b.c! <https://a.com/x>'')])])]
   \<and> spec_candidates py_builtin_str
         [(''snapshot'', PDict [(''link_url'', PStr '' https://A.com/x). ''),
            (''cards'', PList [PDict [(''link_url'', PStr ''https://a.com/x'')], PDict []]),
            (''caption'', PStr ''go https://A.com/x, now''),
            (''body'', PDict [(''text'', PStr ''x http://b.c! <https://a.com/x>'')])])]
     = ['' https://A.com/x). '', ''https://a.com/x'', [], ''https://A.com/x,'', ''http://b.c!'',
        ''https://a.com/x'']
   \<and> extract_urls_from_ad py_builtin_str
       [(''snapshot'', PDict [(''body'', PStr ''see http://t.example/p. and http://T.example/p'')])]
     = Inr [''http://t.example/p'', ''http://T.example/p'']
   \<and> [''http://t.example/p'', ''http://T.example/p'']
     = spec_extract_urls py_builtin_str
         [(''snapshot'', PDict [(''body'', PStr ''see http://t.example/p. and http://T.example/p'')])]
   \<and> extract_urls_from_ad py_builtin_str
       [(''snapshot'', PDict [(''body'', PList [PStr ''http://x.y/z'', PInt 7])])]
     = Inr [[CHR ''h'', CHR ''t'', CHR ''t'', CHR ''p'', CHR '':'', CHR ''/'', CHR ''/'',
             CHR ''x'', CHR ''.'', CHR ''y'', CHR ''/'', CHR ''z'', CHR 0x27]]
   \<and> [[CHR ''h'', CHR ''t'', CHR ''t'', CHR ''p'', CHR '':'', CHR ''/'', CHR ''/'',
        CHR ''x'', CHR ''.'', CHR ''y'', CHR ''/'', CHR ''z'', CHR 0x27]]
     = spec_extract_urls py_builtin_str
         [(''snapshot'', PDict [(''body'', PList [PStr ''http://x.y/z'', PInt 7])])]"
proof -
  let ?ad = "[(''snapshot'', PDict [(''link_url'', PStr '' https://A.com/x). ''),
        (''cards'', PList [PDict [(''link_url'', PStr ''https://a.com/x'')], PDict []]),
        (''caption'', PStr ''go https://A.com/x, now''),
        (''body'', PDict [(''text'', PStr ''x http://b.c! <https://a.com/x>'')])])]"
  let ?ad2 = "[(''snapshot'',
        PDict [(''body'', PStr ''see http://t.example/p. and http://T.example/p'')])]"
  let ?ad3 = "[(''snapshot'', PDict [(''body'', PList [PStr ''http://x.y/z'', PInt 7])])]"
  have run: "extract_urls_from_ad py_builtin_str ?ad
      = Inr [''https://A.com/x'', ''https://a.com/x'', ''http://b.c'']"
    by code_simp
  have cand: "spec_candidates py_builtin_str ?ad
      = ['' https://A.com/x). '', ''https://a.com/x'', [], ''https://A.com/x,'', ''http://b.c!'',
        ''https://a.com/x'']"
    by code_simp
  have run2: "extract_urls_from_ad py_builtin_str ?ad2
      = Inr [''http://t.example/p'', ''http://T.example/p'']"
    by code_simp
  have run3: "extract_urls_from_ad py_builtin_str ?ad3
      = Inr [[CHR ''h'', CHR ''t'', CHR ''t'', CHR ''p'', CHR '':'', CHR ''/'', CHR ''/'',
             CHR ''x'', CHR ''.'', CHR ''y'', CHR ''/'', CHR ''z'', CHR 0x27]]"
    by code_simp
  from extract_urls_order_clean_dedup [OF run] extract_urls_order_clean_dedup [OF run2]
    extract_urls_order_clean_dedup [OF run3] run cand run2 run3
  show ?thesis by simp
qed

text \<open>
  Claim C5, as stated, fails: a \<open>snapshot\<close> that is \<open>null\<close> has no \<open>get\<close> method, \<open>cards\<close>
  that are \<open>null\<close> cannot be iterated, and a body that is an integer of 4301 digits cannot be
  converted by \<open>str\<close>; each exception leaves \<open>classify_ad\<close>.
\<close>

theorem classify_ad_raises_counterexample:
  "classify_ad py_builtin_str py_urlparse_netloc [(''snapshot'', PNone)] ''tbshopp.com''
     = Inl AttributeError
   \<and> classify_ad py_builtin_str py_urlparse_netloc
       [(''snapshot'', PDict [(''cards'', PNone)])] ''tbshopp.com''
       = Inl TypeError
   \<and> classify_ad py_builtin_str py_urlparse_netloc
       [(''snapshot'', PDict [(''body'', PInt (10 ^ 4300))])] ''tbshopp.com''
       = Inl ValueError"
proof -
  have a: "classify_ad py_builtin_str py_urlparse_netloc [(''snapshot'', PNone)] ''tbshopp.com''
     = Inl AttributeError"
    by code_simp
  have b: "classify_ad py_builtin_str py_urlparse_netloc
       [(''snapshot'', PDict [(''cards'', PNone)])] ''tbshopp.com''
       = Inl TypeError"
    by code_simp
  have "(10 :: int) ^ 4300 \<le> \<bar>10 ^ 4300\<bar>" by (rule abs_ge_self)
  then have "\<not> int_convertible (10 ^ 4300)" by (rule long_int_not_convertible)
  then have c: "classify_ad py_builtin_str py_urlparse_netloc
       [(''snapshot'', PDict [(''body'', PInt (10 ^ 4300))])] ''tbshopp.com''
       = Inl ValueError"
    by (rule classify_ad_long_int_body)
  from a b c show ?thesis by (intro conjI)
qed

text \<open>
  Claim C5, amended. On every ad whose fields are absent or of their expected types
  (\<open>well_typed_ad\<close>: in particular a body is a structure, text, or a value that \<open>str\<close>
  converts without raising), for every owned domain, and whatever \<^verbatim>\<open>urlparse\<close> does on
  the candidates (return a \<open>netloc\<close> or raise), \<open>classify_ad\<close> returns a result. In the example
  \<^verbatim>\<open>urlparse\<close> raises on the only candidate, and host extraction yields no host.
\<close>

theorem classify_ad_returns_on_well_typed:
  "well_typed_ad builtin_str ad \<Longrightarrow> \<exists>r. classify_ad builtin_str urlparse_netloc ad owned = Inr r"
proof -
  assume "well_typed_ad builtin_str ad"
  then obtain urls where "extract_urls_from_ad builtin_str ad = Inr urls"
    using extract_urls_from_ad_total by blast
  then show ?thesis by (rule classify_ad_total)
qed

theorem classify_ad_returns_on_well_typed_witness:
  "well_typed_ad py_builtin_str
     [(''snapshot'', PDict [(''link_url'', PNone), (''caption'', PStr ''see http://[::1 now''),
        (''body'', PNone)])]
   \<and> extract_domain py_urlparse_netloc ''http://[::1'' = None
   \<and> (\<exists>r. classify_ad py_builtin_str py_urlparse_netloc
        [(''snapshot'', PDict [(''link_url'', PNone), (''caption'', PStr ''see http://[::1 now''),
           (''body'', PNone)])] ''tbshopp.com'' = Inr r)"
proof -
  have wt: "well_typed_ad py_builtin_str
     [(''snapshot'', PDict [(''link_url'', PNone), (''caption'', PStr ''see http://[::1 now''),
        (''body'', PNone)])]"
    by code_simp
  have mal: "extract_domain py_urlparse_netloc ''http://[::1'' = None"
    by code_simp
  from classify_ad_returns_on_well_typed [OF wt] wt mal show ?thesis
    by blast
qed

text \<open>
  Claim C4 asks that only a leading \<open>www.\<close> be stripped. The code removes every occurrence:
  the host \<open>shop.www.example.com\<close> comes out as \<open>shop.example.com\<close>.
\<close>

theorem extract_domain_removes_inner_www:
  "extract_domain py_urlparse_netloc ''https://shop.www.example.com/p'' = Some ''shop.example.com''
   \<and> py_urlparse_netloc ''https://shop.www.example.com/p'' = Some ''shop.www.example.com''"
  by code_simp

section \<open>Properties of the ad analyzer\<close>

lemma classify_ad_shape:
  "classify_ad builtin_str urlparse_netloc ad owned = Inr c \<Longrightarrow>
     (classification c = CONCURRENT \<and> (\<exists>d. competitor_domain c = Some d \<and> d \<noteq> []))
     \<or> (classification c \<noteq> CONCURRENT \<and> competitor_domain c = None)"
  by (auto simp: classify_ad_def split: sum.splits if_splits option.splits
      dest!: classify_urls_Some dest: extract_domain_nonempty)

lemma sum_update_incr:
  "sum_list (map snd (AList.update d (dict_value comps d + 1) comps))
     = sum_list (map snd comps) + 1"
  by (induction comps) (auto simp: dict_value_def)

lemma dict_value_update:
  "dict_value (AList.update d v comps) x = (if x = d then v else dict_value comps x)"
  by (simp add: dict_value_def update_conv')

lemma analyze_ads_inv:
  "analyze_ads builtin_str urlparse_netloc owned ads cads cv cc uk comps = Inr (cads2, cv2, cc2, uk2, comps2)
   \<Longrightarrow> tally_ok cads cv cc uk comps
   \<Longrightarrow> tally_ok cads2 cv2 cc2 uk2 comps2 \<and> length cads2 = length cads + length ads"
proof (induction ads arbitrary: cads cv cc uk comps)
  case Nil
  then show ?case by simp
next
  case (Cons ad ads)
  from Cons.prems(1) obtain c where c: "classify_ad builtin_str urlparse_netloc ad owned = Inr c"
    by (auto split: sum.splits)
  define cad where "cad = \<lparr>classification = classification c, confidence = confidence c,
                        reason = reason c, destination_url = destination_url c,
                        competitor_domain = competitor_domain c,
                        ad_id = field (PDict ad) ''ad_archive_id'',
                        ad_creation_time = field (PDict ad) ''ad_creation_time'',
                        ad_delivery_start_time = field (PDict ad) ''ad_delivery_start_time''\<rparr>"
  have sel: "classification cad = classification c" "competitor_domain cad = competitor_domain c"
    by (simp_all add: cad_def)
  note ok = Cons.prems(2) [unfolded tally_ok_def]
  from classify_ad_shape [OF c] consider
      (conc) d where "classification c = CONCURRENT" "competitor_domain c = Some d" "d \<noteq> []"
    | (conv) "classification c = CONVERTY" "competitor_domain c = None"
    | (unk) "classification c = UNKNOWN" "competitor_domain c = None"
    by (cases "classification c") auto
  then show ?case
  proof cases
    case conc
    let ?comps = "AList.update d (dict_value comps d + 1) comps"
    from Cons.prems(1) c conc
    have run: "analyze_ads builtin_str urlparse_netloc owned ads (cads @ [cad]) cv (cc + 1) uk ?comps
        = Inr (cads2, cv2, cc2, uk2, comps2)"
      by (simp add: cad_def Let_def dict_value_def)
    have s1: "sum_list (map snd ?comps) = cc + 1"
      using sum_update_incr [of d comps] ok by simp
    have s2: "distinct (map fst ?comps)"
      using ok by (simp add: distinct_update)
    have s3: "\<forall>x. dict_value ?comps x = count_domain x (cads @ [cad])"
      using ok sel conc by (auto simp: dict_value_update count_domain_def)
    have s4: "cv = count_class CONVERTY (cads @ [cad])"
      "cc + 1 = count_class CONCURRENT (cads @ [cad])"
      "uk = count_class UNKNOWN (cads @ [cad])"
      using ok sel conc by (simp_all add: count_class_def)
    have "tally_ok (cads @ [cad]) cv (cc + 1) uk ?comps"
      unfolding tally_ok_def using s1 s2 s3 s4 by simp
    from Cons.IH [OF run this] show ?thesis by simp
  next
    case conv
    from Cons.prems(1) c conv
    have run: "analyze_ads builtin_str urlparse_netloc owned ads (cads @ [cad]) (cv + 1) cc uk comps
        = Inr (cads2, cv2, cc2, uk2, comps2)"
      by (simp add: cad_def Let_def)
    have "tally_ok (cads @ [cad]) (cv + 1) cc uk comps"
      unfolding tally_ok_def using ok conv sel
      by (auto simp: count_class_def count_domain_def)
    from Cons.IH [OF run this] show ?thesis by simp
  next
    case unk
    from Cons.prems(1) c unk
    have run: "analyze_ads builtin_str urlparse_netloc owned ads (cads @ [cad]) cv cc (uk + 1) comps
        = Inr (cads2, cv2, cc2, uk2, comps2)"
      by (simp add: cad_def Let_def)
    have "tally_ok (cads @ [cad]) cv cc (uk + 1) comps"
      unfolding tally_ok_def using ok unk sel
      by (auto simp: count_class_def count_domain_def)
    from Cons.IH [OF run this] show ?thesis by simp
  qed
qed

lemma count_class_total:
  "count_class CONVERTY cads + count_class CONCURRENT cads + count_class UNKNOWN cads
     = int (length cads)"
proof (induction cads)
  case Nil
  show ?case by (simp add: count_class_def)
next
  case (Cons a cads)
  then show ?case by (cases "classification a") (auto simp: count_class_def)
qed

lemma sum_insort_key: "sum_list (map snd (insort_key f x xs)) = snd x + sum_list (map snd xs)"
  for x :: "string \<times> int"
  by (induction xs) auto

lemma sum_sort_key: "sum_list (map snd (sort_key f xs)) = sum_list (map snd xs)"
  for xs :: "(string \<times> int) list"
  by (induction xs) (auto simp: sum_insort_key)

text \<open>
  Claim C10. Every page analysis that \<open>analyze_page\<close> returns was built from the ads fetched for
  the page: \<open>classified_ads\<close> has one entry per fetched ad, \<open>total_ads\<close> is its length, the
  three counts are the numbers of classified ads of each kind and add up to \<open>total_ads\<close>, the
  counts of the competitors list add up to \<open>concurrent_ads\<close>, no domain is listed twice, and
  the count of a listed domain is the number of classified ads with that
  \<open>competitor_domain\<close>.
\<close>

theorem analyze_page_counts_partition:
  assumes "analyze_page builtin_str urlparse_netloc fetch page owned = Inr pa"
  shows "\<exists>pid ads. py_index page ''page_id'' = Inr pid \<and> fetch pid = Inr ads
      \<and> length (classified_ads pa) = length ads
      \<and> total_ads pa = int (length (classified_ads pa))
      \<and> converty_ads pa + concurrent_ads pa + unknown_ads pa = total_ads pa
      \<and> converty_ads pa = count_class CONVERTY (classified_ads pa)
      \<and> concurrent_ads pa = count_class CONCURRENT (classified_ads pa)
      \<and> unknown_ads pa = count_class UNKNOWN (classified_ads pa)
      \<and> sum_list (map snd (competitors pa)) = concurrent_ads pa
      \<and> distinct (map fst (competitors pa))
      \<and> (\<forall>d n. (d, n) \<in> set (competitors pa) \<longrightarrow> n = count_domain d (classified_ads pa))"
proof -
  from assms obtain pid pname ads cads cv cc uk comps where
    pid: "py_index page ''page_id'' = Inr pid"
    and ads: "fetch pid = Inr ads"
    and run: "analyze_ads builtin_str urlparse_netloc owned ads [] 0 0 0 [] = Inr (cads, cv, cc, uk, comps)"
    and pa: "pa = \<lparr>page_id = pid, page_name = pname, converty_domain = owned,
               total_ads = int (length cads), converty_ads = cv,
               concurrent_ads = cc, unknown_ads = uk,
               competitors = sorted_by_count_desc comps, classified_ads = cads\<rparr>"
    by (auto simp: analyze_page_def split: sum.splits prod.splits)
  have "tally_ok [] 0 0 0 []"
    by (simp add: tally_ok_def count_class_def count_domain_def dict_value_def)
  from analyze_ads_inv [OF run this]
  have ok: "tally_ok cads cv cc uk comps" and len: "length cads = length ads"
    by simp_all
  note t = ok [unfolded tally_ok_def]
  have sum: "sum_list (map snd (sorted_by_count_desc comps)) = cc"
    using t by (simp add: sorted_by_count_desc_def sum_sort_key)
  have dist: "distinct (map fst (sorted_by_count_desc comps))"
    using t by (simp add: sorted_by_count_desc_def distinct_map)
  have per: "n = count_domain d cads" if "(d, n) \<in> set (sorted_by_count_desc comps)" for d n
  proof -
    from that have "(d, n) \<in> set comps" by (simp add: sorted_by_count_desc_def)
    with t have "map_of comps d = Some n" by simp
    then have "dict_value comps d = n" by (simp add: dict_value_def)
    with t show ?thesis by simp
  qed
  from pid ads len t sum dist per count_class_total [of cads] show ?thesis
    unfolding pa by auto
qed

theorem analyze_page_counts_partition_witness:
  "\<exists>pa. analyze_page py_builtin_str py_urlparse_netloc
          (\<lambda>pid. Inr [[(''snapshot'', PDict [(''link_url'', PStr ''https://tbshopp.com/buy'')])],
                        [(''snapshot'', PDict [(''link_url'', PStr ''https://rivalshop.io/x'')])],
                        [(''snapshot'', PDict [(''link_url'', PStr ''https://fb.me/abc'')])],
                        [(''snapshot'', PDict [(''caption'', PStr ''go http://www.rivalshop.io'')])],
                        []])
          [(''page_id'', PStr ''42''), (''page_name'', PStr ''Shop'')] ''tbshopp.com'' = Inr pa
      \<and> total_ads pa = 5 \<and> converty_ads pa = 1 \<and> concurrent_ads pa = 2 \<and> unknown_ads pa = 2
      \<and> competitors pa = [(''rivalshop.io'', 2)]
      \<and> converty_ads pa + concurrent_ads pa + unknown_ads pa = total_ads pa
      \<and> total_ads pa = int (length (classified_ads pa))
      \<and> sum_list (map snd (competitors pa)) = concurrent_ads pa"
proof -
  let ?fetch = "\<lambda>pid::pyval. (Inr [[(''snapshot'', PDict [(''link_url'', PStr ''https://tbshopp.com/buy'')])],
                        [(''snapshot'', PDict [(''link_url'', PStr ''https://rivalshop.io/x'')])],
                        [(''snapshot'', PDict [(''link_url'', PStr ''https://fb.me/abc'')])],
                        [(''snapshot'', PDict [(''caption'', PStr ''go http://www.rivalshop.io'')])],
                        []] :: py_error + (string \<times> pyval) list list)"
  let ?run = "analyze_page py_builtin_str py_urlparse_netloc ?fetch
          [(''page_id'', PStr ''42''), (''page_name'', PStr ''Shop'')] ''tbshopp.com''"
  have ev: "case ?run of Inl e \<Rightarrow> False
      | Inr pa \<Rightarrow> total_ads pa = 5 \<and> converty_ads pa = 1 \<and> concurrent_ads pa = 2
          \<and> unknown_ads pa = 2 \<and> competitors pa = [(''rivalshop.io'', 2)]"
    by code_simp
  then obtain pa where pa: "?run = Inr pa" and vals: "total_ads pa = 5" "converty_ads pa = 1"
      "concurrent_ads pa = 2" "unknown_ads pa = 2" "competitors pa = [(''rivalshop.io'', 2)]"
    by (auto split: sum.splits)
  from analyze_page_counts_partition [OF pa] pa vals show ?thesis
    by auto
qed

subsection \<open>The aggregated competitors\<close>

lemma add_competitors_append:
  "add_competitors (xs @ ys) acc = add_competitors ys (add_competitors xs acc)"
  by (induction xs arbitrary: acc) auto

lemma fold_add_competitors:
  "fold (\<lambda>page_analysis acc. add_competitors (competitors page_analysis) acc) pas acc
     = add_competitors (all_entries pas) acc"
  by (induction pas arbitrary: acc) (auto simp: all_entries_def add_competitors_append)

lemma aggregate_count_Cons:
  "aggregate_count (e # es) x = (if fst e = x then snd e else 0) + aggregate_count es x"
  by (simp add: aggregate_count_def)

lemma map_keys_id:
  "distinct (map fst al) \<Longrightarrow> map (\<lambda>d. (d, dict_value al d)) (map fst al) = al"
proof -
  assume d: "distinct (map fst al)"
  have "dict_value al (fst p) = snd p" if "p \<in> set al" for p
  proof -
    from that have "(fst p, snd p) \<in> set al" by simp
    with d have "map_of al (fst p) = Some (snd p)" by (rule map_of_is_SomeI)
    then show ?thesis by (simp add: dict_value_def)
  qed
  then have "map (\<lambda>p. (fst p, dict_value al (fst p))) al = map (\<lambda>p. p) al"
    by (intro map_cong) auto
  then show ?thesis by (simp add: comp_def)
qed

lemma add_competitors_spec:
  "distinct (map fst acc) \<Longrightarrow>
     add_competitors es acc
       = map (\<lambda>d. (d, dict_value acc d + aggregate_count es d))
           (keep_first (map fst acc @ map fst es))"
proof (induction es arbitrary: acc)
  case Nil
  then show ?case
    by (simp add: aggregate_count_def keep_first_distinct map_keys_id [simplified])
next
  case (Cons e es)
  obtain d c where e: "e = (d, c)" by (cases e)
  let ?acc = "AList.update d (dict_value acc d + c) acc"
  have step: "add_competitors (e # es) acc = add_competitors es ?acc"
    by (simp add: e dict_value_def split: option.splits)
  have dist: "distinct (map fst ?acc)"
    using Cons.prems by (simp add: distinct_update)
  have keys: "keep_first (map fst ?acc @ map fst es) = keep_first (map fst acc @ map fst (e # es))"
  proof (cases "d \<in> set (map fst acc)")
    case True
    then have "map fst ?acc = map fst acc" by (simp add: update_keys)
    with True show ?thesis by (simp add: e keep_first_dup)
  next
    case False
    then have "map fst ?acc = map fst acc @ [d]" by (simp add: update_keys)
    then show ?thesis by (simp add: e)
  qed
  have vals: "dict_value ?acc x + aggregate_count es x
      = dict_value acc x + aggregate_count (e # es) x" for x
    by (simp add: dict_value_update aggregate_count_Cons e)
  show ?case
    unfolding step Cons.IH [OF dist] keys vals ..
qed

lemma aggregate_competitors_spec:
  "aggregate_competitors pas = sorted_by_count_desc (aggregated_items (all_entries pas))"
proof -
  have "add_competitors (all_entries pas) [] = aggregated_items (all_entries pas)"
    using add_competitors_spec [of "[]" "all_entries pas"]
    by (simp add: aggregated_items_def dict_value_def)
  then show ?thesis
    by (simp add: aggregate_competitors_def fold_add_competitors)
qed

lemma sorted_by_count_desc_sorted:
  "sorted_wrt (\<lambda>x y. snd y \<le> snd x) (sorted_by_count_desc xs)"
proof -
  have "sorted (map (\<lambda>x. - snd x) (sort_key (\<lambda>x. - snd x) xs))" by (rule sorted_sort_key)
  then show ?thesis by (simp add: sorted_by_count_desc_def sorted_map)
qed

lemma sorted_by_count_desc_stable:
  "filter (\<lambda>x. snd x = k) (sorted_by_count_desc xs) = filter (\<lambda>x. snd x = k) xs"
  using sort_key_stable [of "\<lambda>x. - snd x" "- k" xs]
  by (simp add: sorted_by_count_desc_def)

text \<open>
  Claim C8. For every list of page analyses, the report's top list is the first 20 entries
  of the aggregated list, and the aggregated list is \<open>aggregated_items\<close> of all pages'
  competitor entries (one item per domain, in the order of first appearance, with the sum of
  the domain's counts) sorted by falling count. The top list has at most 20 entries and is
  sorted by falling count; the entries of any one count stand in the aggregated list in their
  insertion order. The report of \<open>analyze_client\<close> carries this top list.
\<close>

theorem top_competitors_aggregate_sorted:
  "take 20 (aggregate_competitors pas)
     = take 20 (sorted_by_count_desc (aggregated_items (all_entries pas)))
   \<and> length (take 20 (aggregate_competitors pas)) \<le> 20
   \<and> sorted_wrt (\<lambda>x y. snd y \<le> snd x) (take 20 (aggregate_competitors pas))
   \<and> (\<forall>k. filter (\<lambda>x. snd x = k) (aggregate_competitors pas)
          = filter (\<lambda>x. snd x = k) (aggregated_items (all_entries pas)))
   \<and> (analyze_client builtin_str urlparse_netloc fetch cid mappings = Inr report \<longrightarrow>
        top_competitors report = take 20 (aggregate_competitors (page_details report)))"
proof -
  have "sorted_wrt (\<lambda>x y. snd y \<le> snd x) (take 20 (aggregate_competitors pas))"
    unfolding aggregate_competitors_spec
    by (intro sorted_wrt_take sorted_by_count_desc_sorted)
  moreover have "analyze_client builtin_str urlparse_netloc fetch cid mappings = Inr report \<longrightarrow>
        top_competitors report = take 20 (aggregate_competitors (page_details report))"
    by (auto simp: analyze_client_def split: sum.splits)
  ultimately show ?thesis
    by (simp add: aggregate_competitors_spec sorted_by_count_desc_stable)
qed

theorem top_competitors_aggregate_sorted_witness:
  "take 20 (aggregate_competitors
      [\<lparr>page_id = PStr ''1'', page_name = PStr ''A'', converty_domain = ''tbshopp.com'',
         total_ads = 4, converty_ads = 0, concurrent_ads = 4, unknown_ads = 0,
         competitors = [(''x.com'', 3), (''y.com'', 1)], classified_ads = []\<rparr>,
       \<lparr>page_id = PStr ''2'', page_name = PStr ''B'', converty_domain = ''tbshopp.com'',
         total_ads = 3, converty_ads = 0, concurrent_ads = 3, unknown_ads = 0,
         competitors = [(''z.com'', 1), (''x.com'', 2)], classified_ads = []\<rparr>])
     = [(''x.com'', 5), (''y.com'', 1), (''z.com'', 1)]
   \<and> (\<exists>report. analyze_client py_builtin_str py_urlparse_netloc
          (\<lambda>pid. Inr [[(''snapshot'', PDict [(''link_url'', PStr ''https://rivalshop.io/x'')])],
                        [(''snapshot'', PDict [(''link_url'', PStr ''https://other.example/y'')])],
                        [(''snapshot'', PDict [(''caption'', PStr ''go http://www.rivalshop.io'')])]])
          (PStr ''client'')
          [\<lparr>site = ''tbshopp.com'',
             fb_pages = [[(''page_id'', PStr ''42''), (''page_name'', PStr ''Shop'')]]\<rparr>]
          = Inr report
        \<and> top_competitors report = [(''rivalshop.io'', 2), (''other.example'', 1)]
        \<and> top_competitors report = take 20 (aggregate_competitors (page_details report)))"
proof -
  let ?pas = "[\<lparr>page_id = PStr ''1'', page_name = PStr ''A'', converty_domain = ''tbshopp.com'',
         total_ads = 4, converty_ads = 0, concurrent_ads = 4, unknown_ads = 0,
         competitors = [(''x.com'', 3), (''y.com'', 1)], classified_ads = []\<rparr>,
       \<lparr>page_id = PStr ''2'', page_name = PStr ''B'', converty_domain = ''tbshopp.com'',
         total_ads = 3, converty_ads = 0, concurrent_ads = 3, unknown_ads = 0,
         competitors = [(''z.com'', 1), (''x.com'', 2)], classified_ads = []\<rparr>]"
  let ?fetch = "\<lambda>pid::pyval. (Inr [[(''snapshot'', PDict [(''link_url'', PStr ''https://rivalshop.io/x'')])],
                        [(''snapshot'', PDict [(''link_url'', PStr ''https://other.example/y'')])],
                        [(''snapshot'', PDict [(''caption'', PStr ''go http://www.rivalshop.io'')])]]
                     :: py_error + (string \<times> pyval) list list)"
  let ?run = "analyze_client py_builtin_str py_urlparse_netloc ?fetch (PStr ''client'')
          [\<lparr>site = ''tbshopp.com'',
             fb_pages = [[(''page_id'', PStr ''42''), (''page_name'', PStr ''Shop'')]]\<rparr>]"
  have spec: "take 20 (sorted_by_count_desc (aggregated_items (all_entries ?pas)))
      = [(''x.com'', 5), (''y.com'', 1), (''z.com'', 1)]"
    by code_simp
  have ev: "case ?run of Inl e \<Rightarrow> False
      | Inr report \<Rightarrow> top_competitors report = [(''rivalshop.io'', 2), (''other.example'', 1)]"
    by code_simp
  then obtain report where rep: "?run = Inr report"
      and top: "top_competitors report = [(''rivalshop.io'', 2), (''other.example'', 1)]"
    by (auto split: sum.splits)
  from top_competitors_aggregate_sorted
         [of ?pas py_builtin_str py_urlparse_netloc ?fetch "PStr ''client''" _ report]
         spec rep top
  show ?thesis by auto
qed

section \<open>Properties of the confidence\<close>

lemma floor_log2_bounds:
  assumes "0 < x"
  shows "2 powi (floor_log2 x) \<le> x \<and> x < 2 powi (floor_log2 x + 1)"
proof (cases "1 \<le> x")
  case True
  define n where "n = \<lfloor>x\<rfloor>"
  from True have n1: "1 \<le> n" by (simp add: n_def)
  then have npos: "0 < n" by simp
  from bitlen_bounds [OF npos] have b: "2 ^ nat (bitlen n - 1) \<le> n" "n < 2 ^ nat (bitlen n)"
    by simp_all
  from npos have bl: "1 \<le> bitlen n" by (simp add: bitlen_alt_def)
  have e: "floor_log2 x = bitlen n - 1" using True by (simp add: floor_log2_def n_def)
  have "(2::rat) powi (bitlen n - 1) = 2 ^ nat (bitlen n - 1)"
    using bl by (simp add: power_int_nonneg_exp)
  also have "\<dots> = of_int (2 ^ nat (bitlen n - 1))" by simp
  also have "\<dots> \<le> of_int n" using b(1) by (simp only: of_int_le_iff)
  also have "\<dots> \<le> x" by (simp add: n_def)
  finally have lo: "2 powi (floor_log2 x) \<le> x" by (simp add: e)
  have "x < of_int (n + 1)" unfolding n_def by linarith
  also have "\<dots> \<le> of_int (2 ^ nat (bitlen n))"
  proof -
    from b(2) have "n + 1 \<le> 2 ^ nat (bitlen n)" by simp
    then show ?thesis by (simp only: of_int_le_iff)
  qed
  also have "\<dots> = (2::rat) ^ nat (bitlen n)" by simp
  also have "\<dots> = 2 powi (bitlen n)" using bl by (simp add: power_int_nonneg_exp)
  finally have "x < 2 powi (floor_log2 x + 1)" by (simp add: e)
  with lo show ?thesis ..
next
  case False
  define y where "y = 1 / x"
  define n where "n = \<lceil>y\<rceil>"
  from False assms have y1: "1 < y" by (simp add: y_def)
  then have n2: "2 \<le> n" unfolding n_def by linarith
  then have npos: "0 < n - 1" by simp
  define k where "k = bitlen (n - 1)"
  from bitlen_bounds [OF npos] have b: "2 ^ nat (k - 1) \<le> n - 1" "n - 1 < 2 ^ nat k"
    by (simp_all add: k_def)
  from npos have k1: "1 \<le> k" by (simp add: bitlen_alt_def k_def)
  have e: "floor_log2 x = - k" using False by (simp add: floor_log2_def n_def y_def k_def)
  have xy: "x = 1 / y" using assms by (simp add: y_def)
  have ypos: "0 < y" using y1 by simp
  have "y \<le> of_int n" by (simp add: n_def)
  also have "\<dots> \<le> of_int (2 ^ nat k)"
  proof -
    from b(2) have "n \<le> 2 ^ nat k" by simp
    then show ?thesis by (simp only: of_int_le_iff)
  qed
  also have "\<dots> = (2::rat) ^ nat k" by simp
  finally have yu: "y \<le> 2 ^ nat k" .
  have "(2::rat) powi (- k) = 1 / 2 ^ nat k"
    using k1 by (simp add: power_int_minus_divide power_int_nonneg_exp)
  also have "\<dots> \<le> 1 / y" using yu ypos by (simp add: frac_le)
  also have "1 / y = x" by (rule xy [symmetric])
  finally have "2 powi (- k) \<le> x" .
  then have lo: "2 powi (floor_log2 x) \<le> x" by (simp only: e)
  have "(2::rat) ^ nat (k - 1) = of_int (2 ^ nat (k - 1))" by simp
  also have "\<dots> \<le> of_int (n - 1)" using b(1) by (simp only: of_int_le_iff)
  also have "\<dots> < y" unfolding n_def by linarith
  finally have yl: "2 ^ nat (k - 1) < y" .
  have "x = 1 / y" by (rule xy)
  also have "\<dots> < 1 / 2 ^ nat (k - 1)" using yl by (simp add: frac_less2)
  also have "\<dots> = 2 powi (- (k - 1))"
  proof -
    have "(2::rat) powi (k - 1) = 2 ^ nat (k - 1)"
      using k1 by (intro power_int_nonneg_exp) simp
    then show ?thesis by (simp only: power_int_minus_divide)
  qed
  finally have "x < 2 powi (- (k - 1))" .
  moreover have "floor_log2 x + 1 = - (k - 1)" by (simp add: e)
  ultimately have "x < 2 powi (floor_log2 x + 1)" by (simp only:)
  with lo show ?thesis ..
qed

lemma round_half_even_ge: "of_int k \<le> y \<Longrightarrow> k \<le> round_half_even y"
proof -
  assume "of_int k \<le> y"
  then have "k \<le> \<lfloor>y\<rfloor>" by (simp add: le_floor_iff)
  then show ?thesis by (simp add: round_half_even_def Let_def)
qed

lemma round_half_even_le: "y \<le> of_int k \<Longrightarrow> round_half_even y \<le> k"
proof -
  assume a: "y \<le> of_int k"
  show ?thesis
  proof (cases "y = of_int k")
    case True
    then show ?thesis by (simp add: round_half_even_def Let_def)
  next
    case False
    with a have "y < of_int k" by simp
    then have "\<lfloor>y\<rfloor> < k" by (simp add: floor_less_iff)
    then show ?thesis by (simp add: round_half_even_def Let_def)
  qed
qed

lemma round_half_even_threshold_even:
  assumes "even M"
  shows "M \<le> round_half_even y \<longleftrightarrow> of_int M - 1 / 2 \<le> y"
proof -
  define f where "f = \<lfloor>y\<rfloor>"
  have fl: "of_int f \<le> y" "y < of_int f + 1" unfolding f_def by linarith+
  consider "M \<le> f" | "f = M - 1" | "f < M - 1" by linarith
  then show ?thesis
  proof cases
    case 1
    then have "(of_int M :: rat) \<le> of_int f" by simp
    with 1 fl show ?thesis
      by (auto simp: round_half_even_def Let_def f_def [symmetric])
  next
    case 2
    then have "(of_int f :: rat) = of_int M - 1" by simp
    moreover from 2 assms have "even f = odd M" by simp
    ultimately show ?thesis using assms fl
      by (auto simp: round_half_even_def Let_def f_def [symmetric])
  next
    case 3
    then have "f + 1 \<le> M - 1" by simp
    then have "(of_int (f + 1) :: rat) \<le> of_int (M - 1)" by (simp only: of_int_le_iff)
    then have "(of_int f :: rat) + 1 \<le> of_int M - 1" by simp
    with 3 fl show ?thesis
      by (auto simp: round_half_even_def Let_def f_def [symmetric])
  qed
qed

lemma round_half_even_threshold_odd:
  assumes "odd M"
  shows "M \<le> round_half_even y \<longleftrightarrow> of_int M - 1 / 2 < y"
proof -
  define f where "f = \<lfloor>y\<rfloor>"
  have fl: "of_int f \<le> y" "y < of_int f + 1" unfolding f_def by linarith+
  consider "M \<le> f" | "f = M - 1" | "f < M - 1" by linarith
  then show ?thesis
  proof cases
    case 1
    then have "(of_int M :: rat) \<le> of_int f" by simp
    with 1 fl show ?thesis
      by (auto simp: round_half_even_def Let_def f_def [symmetric])
  next
    case 2
    then have "(of_int f :: rat) = of_int M - 1" by simp
    moreover from 2 assms have "even f = odd M" by simp
    ultimately show ?thesis using assms fl
      by (auto simp: round_half_even_def Let_def f_def [symmetric])
  next
    case 3
    then have "f + 1 \<le> M - 1" by simp
    then have "(of_int (f + 1) :: rat) \<le> of_int (M - 1)" by (simp only: of_int_le_iff)
    then have "(of_int f :: rat) + 1 \<le> of_int M - 1" by simp
    with 3 fl show ?thesis
      by (auto simp: round_half_even_def Let_def f_def [symmetric])
  qed
qed

lemma pow2_pos: "0 < (2::rat) powi n"
  by simp

lemma pow2_add: "(2::rat) powi (m + n) = 2 powi m * 2 powi n"
  by (rule power_int_add) simp

lemma pow2_split: "a + b = c \<Longrightarrow> (2::rat) powi a * 2 powi b = 2 powi c"
  using pow2_add [of a b] by simp

lemma pow2_mono: "m \<le> n \<Longrightarrow> (2::rat) powi m \<le> 2 powi n"
  by (rule power_int_increasing) simp_all

lemma pow2_strict_mono: "m < n \<Longrightarrow> (2::rat) powi m < 2 powi n"
  by (rule power_int_strict_increasing) simp_all

lemma scale_le_iff:
  fixes A x P Q :: rat
  assumes "0 < P" "P * Q = 1"
  shows "A \<le> x * Q \<longleftrightarrow> A * P \<le> x"
proof -
  from assms have Q: "Q = 1 / P" by (simp add: field_simps)
  show ?thesis using assms(1) unfolding Q by (simp add: field_simps)
qed

lemma scale_less_iff:
  fixes A x P Q :: rat
  assumes "0 < P" "P * Q = 1"
  shows "A < x * Q \<longleftrightarrow> A * P < x"
proof -
  from assms have Q: "Q = 1 / P" by (simp add: field_simps)
  show ?thesis using assms(1) unfolding Q by (simp add: field_simps)
qed

lemma nearest_double_normal:
  assumes x: "0 < x" and e: "e = floor_log2 x" and lo: "- 1022 \<le> e" and hi: "e < 1023"
  shows "nearest_double x = Inr (of_int (round_half_even (x * 2 powi (52 - e))) * 2 powi (e - 52))
     \<and> (2::rat) powi e \<le> of_int (round_half_even (x * 2 powi (52 - e))) * 2 powi (e - 52)
     \<and> of_int (round_half_even (x * 2 powi (52 - e))) * 2 powi (e - 52) \<le> (2::rat) powi (e + 1)"
proof -
  define y where "y = x * 2 powi (52 - e)"
  define m where "m = round_half_even y"
  define v where "v = of_int m * (2::rat) powi (e - 52)"
  from floor_log2_bounds [OF x] e have b: "2 powi e \<le> x" "x < 2 powi (e + 1)" by simp_all
  have "(2::rat) powi e * 2 powi (52 - e) \<le> y"
    unfolding y_def using b(1) by (intro mult_right_mono) simp_all
  moreover have "(2::rat) powi e * 2 powi (52 - e) = 2 powi 52"
    by (rule pow2_split) simp
  ultimately have "of_int (2 ^ 52) \<le> y" by simp
  then have m_lo: "2 ^ 52 \<le> m" unfolding m_def by (rule round_half_even_ge)
  have "y \<le> (2::rat) powi (e + 1) * 2 powi (52 - e)"
    unfolding y_def using b(2) by (intro mult_right_mono) simp_all
  moreover have "(2::rat) powi (e + 1) * 2 powi (52 - e) = 2 powi 53"
    by (rule pow2_split) simp
  ultimately have "y \<le> of_int (2 ^ 53)" by simp
  then have m_hi: "m \<le> 2 ^ 53" unfolding m_def by (rule round_half_even_le)
  have "(2::rat) powi e = 2 powi 52 * 2 powi (e - 52)"
    by (rule pow2_split [symmetric]) simp
  also have "\<dots> = of_int (2 ^ 52) * 2 powi (e - 52)" by simp
  also have "\<dots> \<le> v"
    unfolding v_def using m_lo by (intro mult_right_mono) (simp_all only: of_int_le_iff zero_le_power_int zero_le_numeral)
  finally have v_lo: "2 powi e \<le> v" .
  have "v \<le> of_int (2 ^ 53) * 2 powi (e - 52)"
    unfolding v_def using m_hi by (intro mult_right_mono) (simp_all only: of_int_le_iff zero_le_power_int zero_le_numeral)
  also have "\<dots> = 2 powi 53 * 2 powi (e - 52)" by simp
  also have "\<dots> = 2 powi (e + 1)"
    by (rule pow2_split) simp
  finally have v_hi: "v \<le> 2 powi (e + 1)" .
  have "(2::rat) powi (e + 1) \<le> 2 powi 1023" using hi by (intro pow2_mono) simp
  also have "\<dots> < 2 ^ 1024" by simp
  finally have "v < 2 ^ 1024" using v_hi by simp
  moreover have "max (floor_log2 x) (- 1022) = e" using e lo by simp
  moreover have "- (e - 52) = 52 - e" by simp
  ultimately have "nearest_double x = Inr v"
    using x unfolding nearest_double_def Let_def v_def m_def y_def by (simp only:) simp
  with v_lo v_hi show ?thesis unfolding v_def m_def y_def by simp
qed

lemma double_ge_iff:
  assumes x: "0 < x" and lo: "- 1022 \<le> floor_log2 x" and hi: "floor_log2 x < 1023"
    and M: "2 ^ 52 < M" "M < 2 ^ 53"
  shows "\<exists>v. nearest_double x = Inr v \<and>
     (of_int M * 2 powi (k - 52) \<le> v \<longleftrightarrow>
        (if even M then (of_int M - 1 / 2) * 2 powi (k - 52) \<le> x
         else (of_int M - 1 / 2) * 2 powi (k - 52) < x))"
proof -
  define e where "e = floor_log2 x"
  define P where "P = (2::rat) powi (k - 52)"
  define v where "v = of_int (round_half_even (x * 2 powi (52 - e))) * (2::rat) powi (e - 52)"
  define T where "T = (of_int M - 1 / 2) * P"
  from nearest_double_normal [OF x e_def] lo hi
  have nd: "nearest_double x = Inr v" and v: "2 powi e \<le> v" "v \<le> 2 powi (e + 1)"
    by (simp_all add: e_def v_def)
  from floor_log2_bounds [OF x] have b: "2 powi e \<le> x" "x < 2 powi (e + 1)"
    by (simp_all add: e_def)
  have P: "0 < P" by (simp add: P_def)
  have "(of_int M :: rat) < of_int (2 ^ 53)" using M(2) by (simp only: of_int_less_iff)
  then have Mhi: "(of_int M :: rat) < 2 powi 53" by simp
  have "(of_int (2 ^ 52 + 1) :: rat) \<le> of_int M"
  proof -
    from M(1) have "2 ^ 52 + 1 \<le> M" by simp
    then show ?thesis by (simp only: of_int_le_iff)
  qed
  then have Mlo: "(2::rat) powi 52 + 1 \<le> of_int M" by simp
  have d_hi: "of_int M * P < 2 powi (k + 1)"
  proof -
    have "of_int M * P < 2 powi 53 * P" using Mhi P by (simp only: mult_less_cancel_right_pos)
    also have "\<dots> = 2 powi (k + 1)" unfolding P_def by (rule pow2_split) simp
    finally show ?thesis .
  qed
  have T_lo: "2 powi k < T"
  proof -
    have "(2::rat) powi k = 2 powi 52 * P" unfolding P_def by (rule pow2_split [symmetric]) simp
    also have "\<dots> < (of_int M - 1 / 2) * P"
      using Mlo P by (simp add: mult_less_cancel_right_pos)
    finally show ?thesis by (simp add: T_def)
  qed
  have T_d: "T < of_int M * P"
    unfolding T_def using P by (simp add: mult_less_cancel_right_pos)
  consider "k < e" | "e < k" | "e = k" by linarith
  then have "of_int M * P \<le> v \<longleftrightarrow> (if even M then T \<le> x else T < x)"
  proof cases
    case 1
    then have "(2::rat) powi (k + 1) \<le> 2 powi e" by (intro pow2_mono) simp
    with d_hi T_d v(1) b(1) show ?thesis by auto
  next
    case 2
    then have "(2::rat) powi (e + 1) \<le> 2 powi k" by (intro pow2_mono) simp
    with T_lo T_d v(2) b(2) show ?thesis by auto
  next
    case 3
    define y where "y = x * 2 powi (52 - k)"
    have "P * 2 powi (52 - k) = 2 powi 0" unfolding P_def by (rule pow2_split) simp
    then have PQ: "P * 2 powi (52 - k) = 1" by simp
    have "of_int M * P \<le> v \<longleftrightarrow> M \<le> round_half_even y"
      unfolding v_def 3 y_def P_def [symmetric]
      using P by (simp only: mult_le_cancel_right_pos of_int_le_iff)
    also have "\<dots> \<longleftrightarrow> (if even M then of_int M - 1 / 2 \<le> y else of_int M - 1 / 2 < y)"
      using round_half_even_threshold_even [of M y] round_half_even_threshold_odd [of M y]
      by simp
    also have "\<dots> \<longleftrightarrow> (if even M then T \<le> x else T < x)"
      unfolding y_def T_def
      using scale_le_iff [OF P PQ] scale_less_iff [OF P PQ] by simp
    finally show ?thesis .
  qed
  with nd show ?thesis unfolding T_def P_def by blast
qed

lemma lit7: "float_literal (7 / 10) = 6305039478318694 * 2 powi (- 53)"
  by code_simp

lemma lit3: "float_literal (3 / 10) = 5404319552844595 * 2 powi (- 54)"
  by code_simp

lemma threshold_7:
  fixes p t :: int
  assumes "0 < t" "t \<le> 10 ^ 15"
  shows "(6305039478318694 - 1 / 2) * 2 powi (- 53) \<le> (of_int p / of_int t :: rat)
     \<longleftrightarrow> 7 * t \<le> 10 * p"
proof -
  have "(6305039478318694 - 1 / 2) * 2 powi (- 53) = (12610078956637387 / 18014398509481984 :: rat)"
    by (simp add: power_int_minus_divide)
  moreover have "(12610078956637387 / 18014398509481984 \<le> (of_int p / of_int t :: rat))
      \<longleftrightarrow> 12610078956637387 * t \<le> 18014398509481984 * p"
  proof -
    have "(12610078956637387 / 18014398509481984 \<le> (of_int p / of_int t :: rat))
      \<longleftrightarrow> (of_int (12610078956637387 * t) :: rat) \<le> of_int (18014398509481984 * p)"
      using assms(1) by (simp add: field_simps)
    then show ?thesis by (simp only: of_int_le_iff)
  qed
  moreover have "12610078956637387 * t \<le> 18014398509481984 * p \<longleftrightarrow> 7 * t \<le> 10 * p"
    using assms by simp linarith
  ultimately show ?thesis by simp
qed

lemma threshold_3:
  fixes p t :: int
  assumes "0 < t" "t \<le> 10 ^ 15"
  shows "(5404319552844595 - 1 / 2) * 2 powi (- 54) < (of_int p / of_int t :: rat)
     \<longleftrightarrow> 3 * t \<le> 10 * p"
proof -
  have "(5404319552844595 - 1 / 2) * 2 powi (- 54) = (10808639105689189 / 36028797018963968 :: rat)"
    by (simp add: power_int_minus_divide)
  moreover have "(10808639105689189 / 36028797018963968 < (of_int p / of_int t :: rat))
      \<longleftrightarrow> 10808639105689189 * t < 36028797018963968 * p"
  proof -
    have "(10808639105689189 / 36028797018963968 < (of_int p / of_int t :: rat))
      \<longleftrightarrow> (of_int (10808639105689189 * t) :: rat) < of_int (36028797018963968 * p)"
      using assms(1) by (simp add: field_simps)
    then show ?thesis by (simp only: of_int_less_iff)
  qed
  moreover have "10808639105689189 * t < 36028797018963968 * p \<longleftrightarrow> 3 * t \<le> 10 * p"
    using assms by simp linarith
  ultimately show ?thesis by simp
qed

lemma ratio_exponent_range:
  fixes p t :: int
  assumes "0 < p" "0 < t" "p \<le> 10 ^ 15" "t \<le> 10 ^ 15"
  shows "- 1022 \<le> floor_log2 (of_int p / of_int t) \<and> floor_log2 (of_int p / of_int t) < 1023"
proof -
  define x :: rat where "x = of_int p / of_int t"
  define e where "e = floor_log2 x"
  have x: "0 < x" using assms by (simp add: x_def)
  from floor_log2_bounds [OF x] have b: "2 powi e \<le> x" "x < 2 powi (e + 1)"
    by (simp_all add: e_def)
  have "(of_int 1 :: rat) \<le> of_int p" "(of_int 1 :: rat) \<le> of_int t"
    "(of_int p :: rat) \<le> of_int (10 ^ 15)" "(of_int t :: rat) \<le> of_int (10 ^ 15)"
    using assms by (simp_all only: of_int_le_iff)
  then have pt: "(1 :: rat) \<le> of_int p" "(1 :: rat) \<le> of_int t"
    "(of_int p :: rat) \<le> 10 ^ 15" "(of_int t :: rat) \<le> 10 ^ 15"
    by simp_all
  have "x \<le> of_int p / 1" unfolding x_def using pt by (intro divide_left_mono) simp_all
  with pt have xu: "x \<le> 10 ^ 15" by simp
  have "1 / 10 ^ 15 \<le> 1 / (of_int t :: rat)" using pt by (intro divide_left_mono) simp_all
  also have "\<dots> \<le> x" unfolding x_def using pt assms by (intro divide_right_mono) simp_all
  finally have xl: "1 / 10 ^ 15 \<le> x" .
  have "e < 1023"
  proof (rule ccontr)
    assume "\<not> e < 1023"
    then have "(2::rat) powi 50 \<le> 2 powi e" by (intro pow2_mono) simp
    with b(1) xu show False by simp
  qed
  moreover have "- 1022 \<le> e"
  proof (rule ccontr)
    assume "\<not> - 1022 \<le> e"
    then have "(2::rat) powi (e + 1) \<le> 2 powi (- 50)" by (intro pow2_mono) simp
    with b(2) xl show False by (simp add: power_int_minus_divide)
  qed
  ultimately show ?thesis by (simp add: e_def x_def)
qed

lemma calculate_confidence_char:
  assumes "0 \<le> p" "0 < t" "p \<le> 10 ^ 15" "t \<le> 10 ^ 15"
  shows "calculate_confidence p t
     = Inr (if 7 * t \<le> 10 * p then High else if 3 * t \<le> 10 * p then Medium else Low)"
proof (cases "p = 0")
  case True
  have "nearest_double 0 = Inr 0" by (simp add: nearest_double_def)
  moreover have "\<not> float_literal (7 / 10) \<le> 0" "\<not> float_literal (3 / 10) \<le> 0"
    by (simp_all add: lit7 lit3 power_int_minus_divide)
  ultimately show ?thesis
    using True assms by (simp add: calculate_confidence_def py_true_div_def)
next
  case False
  with assms have p: "0 < p" by simp
  define x :: rat where "x = of_int p / of_int t"
  have x: "0 < x" using p assms by (simp add: x_def)
  from ratio_exponent_range [OF p assms(2-4)]
  have r: "- 1022 \<le> floor_log2 x" "floor_log2 x < 1023" by (simp_all add: x_def)
  from double_ge_iff [OF x r, of 6305039478318694 "- 1"]
  obtain v where v: "nearest_double x = Inr v"
    and h: "6305039478318694 * 2 powi (- 53) \<le> v
        \<longleftrightarrow> (6305039478318694 - 1 / 2) * 2 powi (- 53) \<le> x"
    by auto
  from double_ge_iff [OF x r, of 5404319552844595 "- 2"] v
  have m: "5404319552844595 * 2 powi (- 54) \<le> v
        \<longleftrightarrow> (5404319552844595 - 1 / 2) * 2 powi (- 54) < x"
    by auto
  have div: "py_true_div p t = Inr v"
    using p assms v by (simp add: py_true_div_def x_def)
  have "float_literal (7 / 10) \<le> v \<longleftrightarrow> 7 * t \<le> 10 * p"
    unfolding lit7 h x_def using assms by (intro threshold_7)
  moreover have "float_literal (3 / 10) \<le> v \<longleftrightarrow> 3 * t \<le> 10 * p"
    unfolding lit3 m x_def using assms by (intro threshold_3)
  ultimately show ?thesis
    using assms div by (simp add: calculate_confidence_def)
qed

lemma ratio_ge_iff:
  fixes p t :: int
  assumes "0 < t" "0 < b"
  shows "(of_int a / of_int b :: rat) \<le> of_int p / of_int t \<longleftrightarrow> a * t \<le> b * p"
proof -
  have "(of_int a / of_int b :: rat) \<le> of_int p / of_int t
      \<longleftrightarrow> (of_int (a * t) :: rat) \<le> of_int (b * p)"
    using assms by (simp add: field_simps)
  then show ?thesis by (simp only: of_int_le_iff)
qed

text \<open>
  Claim C7, amended. For page and total counts from \<open>0\<close> to \<open>10 ^ 15\<close>: the result is low
  when the total is \<open>0\<close>; otherwise it is high exactly when the ratio is at least \<open>7/10\<close>,
  medium exactly when the ratio is at least \<open>3/10\<close> and below \<open>7/10\<close>, and low exactly when
  the ratio is below \<open>3/10\<close>; and a larger ratio never gives a lower confidence.
\<close>

theorem calculate_confidence_thresholds:
  assumes "0 \<le> pageAds" "pageAds \<le> 10 ^ 15" "0 \<le> totalAds" "totalAds \<le> 10 ^ 15"
  shows "(totalAds = 0 \<longrightarrow> calculate_confidence pageAds totalAds = Inr Low)
    \<and> (0 < totalAds \<longrightarrow>
         (calculate_confidence pageAds totalAds = Inr High
            \<longleftrightarrow> 7 / 10 \<le> (of_int pageAds / of_int totalAds :: rat))
       \<and> (calculate_confidence pageAds totalAds = Inr Medium
            \<longleftrightarrow> 3 / 10 \<le> (of_int pageAds / of_int totalAds :: rat)
                \<and> (of_int pageAds / of_int totalAds :: rat) < 7 / 10)
       \<and> (calculate_confidence pageAds totalAds = Inr Low
            \<longleftrightarrow> (of_int pageAds / of_int totalAds :: rat) < 3 / 10))
    \<and> (0 < totalAds \<and> 0 \<le> p2 \<and> p2 \<le> 10 ^ 15 \<and> 0 < t2 \<and> t2 \<le> 10 ^ 15
         \<and> (of_int pageAds / of_int totalAds :: rat) \<le> of_int p2 / of_int t2
       \<longrightarrow> (\<exists>c1 c2. calculate_confidence pageAds totalAds = Inr c1
              \<and> calculate_confidence p2 t2 = Inr c2 \<and> conf_rank c1 \<le> conf_rank c2))"
proof (intro conjI impI)
  assume "totalAds = 0"
  then show "calculate_confidence pageAds totalAds = Inr Low"
    by (simp add: calculate_confidence_def)
next
  assume t: "0 < totalAds"
  note c = calculate_confidence_char [OF assms(1) t assms(2) assms(4)]
  have r7: "7 / 10 \<le> (of_int pageAds / of_int totalAds :: rat) \<longleftrightarrow> 7 * totalAds \<le> 10 * pageAds"
    using ratio_ge_iff [where t = totalAds and b = 10 and a = 7 and p = pageAds, OF t] by simp
  have r3: "3 / 10 \<le> (of_int pageAds / of_int totalAds :: rat) \<longleftrightarrow> 3 * totalAds \<le> 10 * pageAds"
    using ratio_ge_iff [where t = totalAds and b = 10 and a = 3 and p = pageAds, OF t] by simp
  show "calculate_confidence pageAds totalAds = Inr High
            \<longleftrightarrow> 7 / 10 \<le> (of_int pageAds / of_int totalAds :: rat)"
    unfolding c r7 by simp
  show "calculate_confidence pageAds totalAds = Inr Medium
            \<longleftrightarrow> 3 / 10 \<le> (of_int pageAds / of_int totalAds :: rat)
                \<and> (of_int pageAds / of_int totalAds :: rat) < 7 / 10"
    unfolding c r3 not_le [symmetric] r7 by auto
  show "calculate_confidence pageAds totalAds = Inr Low
            \<longleftrightarrow> (of_int pageAds / of_int totalAds :: rat) < 3 / 10"
    unfolding c not_le [symmetric] r3 using t assms by auto
next
  assume a: "0 < totalAds \<and> 0 \<le> p2 \<and> p2 \<le> 10 ^ 15 \<and> 0 < t2 \<and> t2 \<le> 10 ^ 15
         \<and> (of_int pageAds / of_int totalAds :: rat) \<le> of_int p2 / of_int t2"
  then have t: "0 < totalAds" and t2: "0 < t2" by simp_all
  note c1 = calculate_confidence_char [OF assms(1) t assms(2) assms(4)]
  from a have c2: "calculate_confidence p2 t2
     = Inr (if 7 * t2 \<le> 10 * p2 then High else if 3 * t2 \<le> 10 * p2 then Medium else Low)"
    by (intro calculate_confidence_char) simp_all
  from a have le: "(of_int pageAds / of_int totalAds :: rat) \<le> of_int p2 / of_int t2" by simp
  have m7: "7 * t2 \<le> 10 * p2" if "7 * totalAds \<le> 10 * pageAds"
  proof -
    from that have "7 / 10 \<le> (of_int pageAds / of_int totalAds :: rat)"
      using ratio_ge_iff [where t = totalAds and b = 10 and a = 7 and p = pageAds, OF t] by simp
    then have "7 / 10 \<le> (of_int p2 / of_int t2 :: rat)" using le by (rule order_trans)
    then show ?thesis using ratio_ge_iff [where t = t2 and b = 10 and a = 7 and p = p2, OF t2] by simp
  qed
  have m3: "3 * t2 \<le> 10 * p2" if "3 * totalAds \<le> 10 * pageAds"
  proof -
    from that have "3 / 10 \<le> (of_int pageAds / of_int totalAds :: rat)"
      using ratio_ge_iff [where t = totalAds and b = 10 and a = 3 and p = pageAds, OF t] by simp
    then have "3 / 10 \<le> (of_int p2 / of_int t2 :: rat)" using le by (rule order_trans)
    then show ?thesis using ratio_ge_iff [where t = t2 and b = 10 and a = 3 and p = p2, OF t2] by simp
  qed
  show "\<exists>c1 c2. calculate_confidence pageAds totalAds = Inr c1
              \<and> calculate_confidence p2 t2 = Inr c2 \<and> conf_rank c1 \<le> conf_rank c2"
    unfolding c1 c2 using m7 m3 by auto
qed

theorem calculate_confidence_thresholds_witness:
  "calculate_confidence 7 10 = Inr High \<and> calculate_confidence 4 10 = Inr Medium
   \<and> calculate_confidence 1 10 = Inr Low \<and> calculate_confidence 5 0 = Inr Low"
proof -
  have "calculate_confidence 7 10 = Inr High"
    using calculate_confidence_thresholds [of 7 10] by simp
  moreover have "calculate_confidence 4 10 = Inr Medium"
    using calculate_confidence_thresholds [of 4 10] by simp
  moreover have "calculate_confidence 1 10 = Inr Low"
    using calculate_confidence_thresholds [of 1 10] by simp
  moreover have "calculate_confidence 5 0 = Inr Low"
    using calculate_confidence_thresholds [of 5 0] by simp
  ultimately show ?thesis by simp
qed

text \<open>
  Claim C7, as stated for all non-negative integers, fails: the ratio
  \<open>69999999999999999 / 100000000000000000\<close> is below \<open>7/10\<close>, and its nearest double is the
  double of the literal \<open>0.7\<close>, so the result is high.
\<close>

theorem calculate_confidence_rounding_counterexample:
  "calculate_confidence 69999999999999999 100000000000000000 = Inr High
   \<and> (69999999999999999 / 100000000000000000 :: rat) < 7 / 10"
  by code_simp

end
